theory Spec2Isabelle
  imports Main "HOL-Library.Sublist" "HOL-Library.Char_ord" "HOL-Library.List_Lexorder"
begin

section \<open>JavaScript string primitives\<close>

text \<open>
  A JavaScript string is modelled as a \<^typ>\<open>string\<close>: the list of its code units, each
  below 256. On that range the white space of \<open>String.prototype.trim\<close> and
  \<open>trimEnd\<close> is TAB, LF, VT, FF, CR, SPACE and NBSP.
\<close>

definition is_ws :: "char \<Rightarrow> bool" where
  "is_ws c = (c \<in> set [CHR 0x09, CHR 0x0A, CHR 0x0B, CHR 0x0C, CHR 0x0D, CHR 0x20, CHR 0xA0])"

definition trimEnd :: "string \<Rightarrow> string" where
  "trimEnd s = rev (dropWhile is_ws (rev s))"

definition trim :: "string \<Rightarrow> string" where
  "trim s = trimEnd (dropWhile is_ws s)"

text \<open>
  \<open>s.indexOf(p)\<close>: the first offset at which \<open>p\<close> occurs in \<open>s\<close>; \<open>None\<close> stands
  for the \<open>-1\<close> of JavaScript.
\<close>

fun indexOf :: "string \<Rightarrow> string \<Rightarrow> nat option" where
  "indexOf [] p = (if p = [] then Some 0 else None)"
| "indexOf (c # cs) p =
     (if prefix p (c # cs) then Some 0 else map_option Suc (indexOf cs p))"

definition includes_str :: "string \<Rightarrow> string \<Rightarrow> bool" where
  "includes_str s p = (indexOf s p \<noteq> None)"

text \<open>\<open>s.startsWith(p)\<close> and \<open>s.endsWith(p)\<close>.\<close>

definition startsWith :: "string \<Rightarrow> string \<Rightarrow> bool" where
  "startsWith s p = prefix p s"

definition endsWith :: "string \<Rightarrow> string \<Rightarrow> bool" where
  "endsWith s p = prefix (rev p) (rev s)"


text \<open>The characters other than the slash.\<close>

definition not_slash :: "char \<Rightarrow> bool" where
  "not_slash c = (c \<noteq> CHR ''/'')"

text \<open>The number of offsets at which \<open>p\<close> occurs in \<open>s\<close>.\<close>

fun occurrences :: "string \<Rightarrow> string \<Rightarrow> nat" where
  "occurrences [] p = (if p = [] then 1 else 0)"
| "occurrences (c # cs) p = (if prefix p (c # cs) then 1 else 0) + occurrences cs p"

section \<open>generator.ts: marked blocks in the output file\<close>

definition START_MARKER_PREFIX :: string where
  "START_MARKER_PREFIX = ''<!-- DOCS-INDEX-START:''"

definition END_MARKER_PREFIX :: string where
  "END_MARKER_PREFIX = ''<!-- DOCS-INDEX-END:''"

definition MARKER_SUFFIX :: string where
  "MARKER_SUFFIX = '' -->''"

definition getStartMarker :: "string \<Rightarrow> string" where
  "getStartMarker sourceName = START_MARKER_PREFIX @ sourceName @ MARKER_SUFFIX"

definition getEndMarker :: "string \<Rightarrow> string" where
  "getEndMarker sourceName = END_MARKER_PREFIX @ sourceName @ MARKER_SUFFIX"

definition generateIndexBlock :: "string \<Rightarrow> string \<Rightarrow> string \<Rightarrow> string \<Rightarrow> string" where
  "generateIndexBlock sourceName displayName rootPath compressedIndex =
     getStartMarker sourceName @ ''\<newline>['' @ displayName @ '']\<newline>root: '' @ rootPath
     @ ''\<newline>\<newline>IMPORTANT: Use retrieval-led reasoning. When you need '' @ displayName
     @ '' information, read files from the root directory above.\<newline>\<newline>''
     @ compressedIndex @ ''\<newline>'' @ getEndMarker sourceName"

datatype gen_error =
    InvalidIdentifier
  | EmptyIndex
  | MalformedBlock
  | PermissionDenied
  | DiskFull
  | WriteFailed
  | DocumentNotFound
  | RemoveFailed

text \<open>
  \<open>updateContent\<close>: the three branches of the source in their order. \<open>substring(0, i)\<close>
  is \<open>take i\<close> and \<open>substring(k)\<close> is \<open>drop k\<close>; the \<open>throw\<close> is \<open>Inl MalformedBlock\<close>.
\<close>

definition updateContent :: "string \<Rightarrow> string \<Rightarrow> string \<Rightarrow> gen_error + string" where
  "updateContent existingContent sourceName indexBlock =
     (let startMarker = getStartMarker sourceName;
          endMarker = getEndMarker sourceName;
          startIdx = indexOf existingContent startMarker;
          endIdx = indexOf existingContent endMarker
      in if startIdx \<noteq> None \<and> endIdx \<noteq> None \<and> the startIdx < the endIdx then
           Inr (take (the startIdx) existingContent @ indexBlock
                @ drop (the endIdx + length endMarker) existingContent)
         else if startIdx \<noteq> None \<and> endIdx = None then
           Inl MalformedBlock
         else
           Inr (trimEnd existingContent @ ''\<newline>\<newline>'' @ indexBlock @ ''\<newline>''))"

text \<open>
  \<open>toUpperCase\<close> and \<open>toLowerCase\<close> on the code units below 256. The lower-case letters
  with an upper case among them are \<open>a\<close> to \<open>z\<close> and \<open>0xE0\<close> to \<open>0xFE\<close> without the
  division sign \<open>0xF7\<close>; each lies \<open>0x20\<close> above its upper case. The upper case of the sharp
  s \<open>0xDF\<close> is the two letters \<open>SS\<close>. The upper case of the micro sign \<open>0xB5\<close> and of
  \<open>0xFF\<close> is a code unit above 255, which a \<^typ>\<open>string\<close> cannot hold: these two are left
  as they are.
\<close>

definition lower_letters :: string where
  "lower_letters = ''abcdefghijklmnopqrstuvwxyz'' @
        [CHR 0xE0, CHR 0xE1, CHR 0xE2, CHR 0xE3, CHR 0xE4, CHR 0xE5, CHR 0xE6, CHR 0xE7,
         CHR 0xE8, CHR 0xE9, CHR 0xEA, CHR 0xEB, CHR 0xEC, CHR 0xED, CHR 0xEE, CHR 0xEF,
         CHR 0xF0, CHR 0xF1, CHR 0xF2, CHR 0xF3, CHR 0xF4, CHR 0xF5, CHR 0xF6, CHR 0xF8,
         CHR 0xF9, CHR 0xFA, CHR 0xFB, CHR 0xFC, CHR 0xFD, CHR 0xFE]"

definition upper_letters :: string where
  "upper_letters = ''ABCDEFGHIJKLMNOPQRSTUVWXYZ'' @
        [CHR 0xC0, CHR 0xC1, CHR 0xC2, CHR 0xC3, CHR 0xC4, CHR 0xC5, CHR 0xC6, CHR 0xC7,
         CHR 0xC8, CHR 0xC9, CHR 0xCA, CHR 0xCB, CHR 0xCC, CHR 0xCD, CHR 0xCE, CHR 0xCF,
         CHR 0xD0, CHR 0xD1, CHR 0xD2, CHR 0xD3, CHR 0xD4, CHR 0xD5, CHR 0xD6, CHR 0xD8,
         CHR 0xD9, CHR 0xDA, CHR 0xDB, CHR 0xDC, CHR 0xDD, CHR 0xDE]"

definition toUpperCase_char :: "char \<Rightarrow> string" where
  "toUpperCase_char c =
     (if c = CHR 0xDF then ''SS''
      else case map_of (zip lower_letters upper_letters) c of Some u \<Rightarrow> [u] | None \<Rightarrow> [c])"

definition toUpperCase :: "string \<Rightarrow> string" where
  "toUpperCase s = concat (map toUpperCase_char s)"

definition toLowerCase_char :: "char \<Rightarrow> char" where
  "toLowerCase_char c =
     (case map_of (zip upper_letters lower_letters) c of Some l \<Rightarrow> l | None \<Rightarrow> c)"

definition toLowerCase :: "string \<Rightarrow> string" where
  "toLowerCase s = map toLowerCase_char s"

text \<open>
  \<open>formatDisplayName\<close>: \<open>split('-')\<close>, upper-case the first code unit of each word, join
  with a space.
\<close>

fun split_char :: "char \<Rightarrow> string \<Rightarrow> string list" where
  "split_char d [] = [[]]"
| "split_char d (c # cs) =
     (if c = d then [] # split_char d cs
      else (case split_char d cs of w # ws \<Rightarrow> (c # w) # ws | [] \<Rightarrow> [[c]]))"

fun join :: "string \<Rightarrow> string list \<Rightarrow> string" where
  "join sep [] = []"
| "join sep [x] = x"
| "join sep (x # y # ys) = x @ sep @ join sep (y # ys)"

definition formatDisplayName :: "string \<Rightarrow> string" where
  "formatDisplayName sourceName =
     join '' '' (map (\<lambda>word. (case word of [] \<Rightarrow> [] | c # cs \<Rightarrow> toUpperCase_char c @ cs))
                    (split_char CHR ''-'' sourceName))"

definition validateSourceName :: "string \<Rightarrow> gen_error option" where
  "validateSourceName sourceName =
     (if sourceName = [] \<or> trim sourceName = [] then Some InvalidIdentifier
      else if length sourceName > 100 then Some InvalidIdentifier
      else if includes_str sourceName ''-->'' \<or> includes_str sourceName ''<!--''
        then Some InvalidIdentifier
      else None)"

text \<open>
  \<open>generateAgentsMd\<close> on the output file as a state: \<open>None\<close> when the file does not exist,
  \<open>Some content\<close> otherwise. The function returns its result and the file afterwards.
  What the source computes from the process and the file system is passed in: the content
  of \<open>createNewFileContent\<close> (\<open>newFileContent\<close>), the path of the docs directory relative to
  the output file (\<open>relativePath\<close>) and how the final \<open>fs.mkdir\<close> and \<open>fs.writeFile\<close> end
  (\<open>wr\<close>, the code of the error if there is one; a write that fails leaves the file as it
  was). A file that exists is read without error. The \<open>catch\<close> around the write names
  \<open>EACCES\<close> and \<open>ENOSPC\<close>; every other error is a failed write.
\<close>

datatype write_outcome = WriteOk | EACCES | ENOSPC | ENOENT | EOther

definition writeFile ::
  "write_outcome \<Rightarrow> string \<Rightarrow> 'a \<Rightarrow> string option \<Rightarrow> (gen_error + 'a) \<times> string option" where
  "writeFile wr content ret file =
     (case wr of
        WriteOk \<Rightarrow> (Inr ret, Some content)
      | EACCES \<Rightarrow> (Inl PermissionDenied, file)
      | ENOSPC \<Rightarrow> (Inl DiskFull, file)
      | ENOENT \<Rightarrow> (Inl WriteFailed, file)
      | EOther \<Rightarrow> (Inl WriteFailed, file))"

definition generateAgentsMd ::
  "string \<Rightarrow> string \<Rightarrow> write_outcome \<Rightarrow> string \<Rightarrow> string \<Rightarrow> string option
     \<Rightarrow> (gen_error + bool \<times> bool) \<times> string option" where
  "generateAgentsMd newFileContent relativePath wr sourceName compressedIndex file =
     (case validateSourceName sourceName of
        Some e \<Rightarrow> (Inl e, file)
      | None \<Rightarrow>
          if compressedIndex = [] \<or> trim compressedIndex = [] then (Inl EmptyIndex, file)
          else
            (let displayName = formatDisplayName sourceName;
                 indexBlock = generateIndexBlock sourceName displayName relativePath compressedIndex
             in case file of
                  Some existingContent \<Rightarrow>
                    (let hadExistingBlock = includes_str existingContent (getStartMarker sourceName)
                     in case updateContent existingContent sourceName indexBlock of
                          Inl e \<Rightarrow> (Inl e, file)
                        | Inr content \<Rightarrow> writeFile wr content (False, hadExistingBlock) file)
                | None \<Rightarrow>
                    writeFile wr (newFileContent @ indexBlock @ ''\<newline>'') (True, False) file))"

text \<open>
  \<open>removeSource\<close> on the content read from the file. \<open>before.replace(/\n+$/, '\n')\<close> and
  \<open>after.replace(/^\n+/, '\n')\<close> collapse the run of line feeds at the cut to one. One
  \<open>catch\<close> handles the read and the write: an error with the code \<open>ENOENT\<close> becomes
  \<open>File not found\<close>, every other error \<open>Failed to remove source\<close>.
\<close>

definition collapse_trailing_newlines :: "string \<Rightarrow> string" where
  "collapse_trailing_newlines s =
     (if s \<noteq> [] \<and> last s = CHR 0x0A
      then rev (dropWhile (\<lambda>c. c = CHR 0x0A) (rev s)) @ [CHR 0x0A] else s)"

definition collapse_leading_newlines :: "string \<Rightarrow> string" where
  "collapse_leading_newlines s =
     (case s of
        [] \<Rightarrow> []
      | c # cs \<Rightarrow> if c = CHR 0x0A then CHR 0x0A # dropWhile (\<lambda>c. c = CHR 0x0A) cs else s)"

definition removeSource ::
  "write_outcome \<Rightarrow> string \<Rightarrow> string option \<Rightarrow> (gen_error + bool) \<times> string option" where
  "removeSource wr sourceName file =
     (case file of
        None \<Rightarrow> (Inl DocumentNotFound, file)
      | Some content \<Rightarrow>
          (let startMarker = getStartMarker sourceName;
               endMarker = getEndMarker sourceName;
               startIdx = indexOf content startMarker;
               endIdx = indexOf content endMarker
           in if startIdx = None \<or> endIdx = None then (Inr False, file)
              else
                (let before = take (the startIdx) content;
                     after = drop (the endIdx + length endMarker) content;
                     newContent = collapse_trailing_newlines before @ collapse_leading_newlines after
                 in case wr of
                      WriteOk \<Rightarrow> (Inr True, Some newContent)
                    | ENOENT \<Rightarrow> (Inl DocumentNotFound, file)
                    | _ \<Rightarrow> (Inl RemoveFailed, file))))"

text \<open>The text of a document apart from its white space.\<close>

definition without_ws :: "string \<Rightarrow> string" where
  "without_ws s = filter (\<lambda>c. \<not> is_ws c) s"


section \<open>downloader.ts\<close>

subsection \<open>fetchRepoTreeWithFallback\<close>

datatype tree_type = blob | tree

record GitHubTreeItem =
  path :: string
  type :: tree_type

text \<open>
  A JavaScript \<open>Error\<close>: its message and, as the fallback loop reads it, the status of an
  attached response. \<open>new Error(msg)\<close> has no response.
\<close>

record js_error =
  message :: string
  response_status :: "nat option"

definition new_Error :: "string \<Rightarrow> js_error" where
  "new_Error msg = \<lparr>message = msg, response_status = None\<rparr>"

text \<open>
  What \<open>axios.get\<close> answers for a URL: a response with the tree and the \<open>truncated\<close> flag,
  or a rejection carrying \<open>error.code\<close>, \<open>error.response?.status\<close>, the reset time of the
  rate limit rendered by \<open>toLocaleTimeString\<close> (when the header is present) and
  \<open>error.message\<close>.
\<close>

datatype axios_result =
    Response "GitHubTreeItem list" bool
  | Rejected (ax_code: "string option") (ax_status: "nat option") (ax_reset: "string option")
      (ax_message: string)

definition BRANCH_FALLBACKS :: "string list" where
  "BRANCH_FALLBACKS = [''main'', ''master'', ''develop'', ''dev'']"

definition apiUrl :: "string \<Rightarrow> string \<Rightarrow> string \<Rightarrow> string" where
  "apiUrl owner repo branch =
     ''https://api.github.com/repos/'' @ owner @ ''/'' @ repo @ ''/git/trees/'' @ branch
     @ ''?recursive=1''"

text \<open>
  The messages are those of the source; the bullet U+2022 of its lists lies outside the code
  units modelled and is written \<open>*\<close>. The warning that \<open>fetchRepoTree\<close> prints for a truncated
  tree is not modelled.
\<close>

definition fetchRepoTree ::
  "(string \<Rightarrow> axios_result) \<Rightarrow> string \<Rightarrow> string \<Rightarrow> string \<Rightarrow> js_error + GitHubTreeItem list" where
  "fetchRepoTree get owner repo branch =
     (case get (apiUrl owner repo branch) of
        Response t truncated \<Rightarrow> Inr t
      | Rejected code status reset msg \<Rightarrow>
          if code = Some ''ECONNABORTED'' \<or> code = Some ''ETIMEDOUT'' then
            Inl (new_Error (''Connection timeout while fetching '' @ owner @ ''/'' @ repo
              @ ''\<newline>\<newline>Please check your internet connection and try again.''))
          else if status = Some 404 then
            Inl (new_Error (''Repository or branch not found: '' @ owner @ ''/'' @ repo
              @ '' (branch: '' @ branch @ '')''))
          else if status = Some 403 then
            Inl (new_Error (''GitHub API rate limit exceeded.\<newline>\<newline>The rate limit will reset at ''
              @ (case reset of Some t \<Rightarrow> t | None \<Rightarrow> ''soon'')
              @ ''.\<newline>To avoid rate limits, you can:\<newline>  * Wait a few minutes and try again\<newline>''
              @ ''  * Authenticate with a GitHub token (set GITHUB_TOKEN env var)''))
          else if status = Some 401 then
            Inl (new_Error (''GitHub authentication failed.\<newline>\<newline>''
              @ ''If using GITHUB_TOKEN, please check that it's valid.''))
          else Inl (new_Error (''Failed to fetch repository: '' @ msg)))"

definition branchesToTry :: "string \<Rightarrow> string list" where
  "branchesToTry preferredBranch =
     foldl (\<lambda>acc fallback. if fallback \<notin> set acc then acc @ [fallback] else acc)
       (if preferredBranch \<noteq> [] then [preferredBranch] else []) BRANCH_FALLBACKS"

text \<open>
  The loop over the candidates. It returns the branches for which a request was made, in
  order, and how the loop ended: \<open>None\<close> when it ran through, \<open>Some (Inr (tree, branch))\<close>
  for the \<open>return\<close>, \<open>Some (Inl error)\<close> for the \<open>throw error\<close>.
\<close>

fun try_branches ::
  "(string \<Rightarrow> axios_result) \<Rightarrow> string \<Rightarrow> string \<Rightarrow> string list
     \<Rightarrow> string list \<times> (js_error + GitHubTreeItem list \<times> string) option" where
  "try_branches get owner repo [] = ([], None)"
| "try_branches get owner repo (branch # rest) =
     (case fetchRepoTree get owner repo branch of
        Inr t \<Rightarrow> ([branch], Some (Inr (t, branch)))
      | Inl error \<Rightarrow>
          if includes_str (message error) ''not found'' \<or> response_status error = Some 404 then
            (case try_branches get owner repo rest of (tried, r) \<Rightarrow> (branch # tried, r))
          else ([branch], Some (Inl error)))"

definition fetchRepoTreeWithFallback ::
  "(string \<Rightarrow> axios_result) \<Rightarrow> string \<Rightarrow> string \<Rightarrow> string
     \<Rightarrow> string list \<times> (js_error + GitHubTreeItem list \<times> string)" where
  "fetchRepoTreeWithFallback get owner repo preferredBranch =
     (case try_branches get owner repo (branchesToTry preferredBranch) of
        (tried, Some r) \<Rightarrow> (tried, r)
      | (tried, None) \<Rightarrow>
          (tried, Inl (new_Error (''Could not find repository: '' @ owner @ ''/'' @ repo
             @ ''\<newline>\<newline>Tried branches: '' @ join '', '' (branchesToTry preferredBranch)
             @ ''\<newline>\<newline>Please check:\<newline>  * The repository exists and is public\<newline>''
             @ ''  * The URL is correct\<newline>  * Use --branch to specify the correct branch name''))))"

subsection \<open>downloadDocs: the batch\<close>

text \<open>
  \<open>path.resolve\<close> of Node on POSIX paths, with the working directory \<open>cwd\<close> (an absolute
  path) as the argument of last resort: the arguments are joined from right to left up to
  the first absolute one, then the segments are normalised (\<open>.\<close> and empty segments are
  dropped, \<open>..\<close> removes the segment before it and is dropped at the root).
\<close>

fun normalizeString :: "string list \<Rightarrow> string list \<Rightarrow> string list" where
  "normalizeString res [] = rev res"
| "normalizeString res (seg # segs) =
     (if seg = [] \<or> seg = ''.'' then normalizeString res segs
      else if seg = ''..'' then normalizeString (case res of [] \<Rightarrow> [] | _ # up \<Rightarrow> up) segs
      else normalizeString (seg # res) segs)"

fun resolve_args :: "string list \<Rightarrow> string \<Rightarrow> string" where
  "resolve_args [] resolvedPath = resolvedPath"
| "resolve_args (p # ps) resolvedPath =
     (if p = [] then resolve_args ps resolvedPath
      else if startsWith p ''/'' then p @ ''/'' @ resolvedPath
      else resolve_args ps (p @ ''/'' @ resolvedPath))"

definition path_resolve :: "string \<Rightarrow> string list \<Rightarrow> string" where
  "path_resolve cwd args =
     ''/'' @ join ''/'' (normalizeString [] (split_char CHR ''/'' (resolve_args (rev args @ [cwd]) [])))"

text \<open>
  \<open>path.basename\<close> of Node on a POSIX path: trailing slashes are skipped, and the name runs
  back to the slash before it.
\<close>

definition path_basename :: "string \<Rightarrow> string" where
  "path_basename p = rev (takeWhile not_slash (dropWhile (\<lambda>c. \<not> not_slash c) (rev p)))"

text \<open>
  \<open>path.extname\<close> of Node on a POSIX path: the text from the last dot of the base name on;
  empty when the base name has no dot, begins with its last dot, or is \<open>..\<close>.
\<close>

definition path_extname :: "string \<Rightarrow> string" where
  "path_extname p =
     (let base = path_basename p;
          ext = CHR ''.'' # rev (takeWhile (\<lambda>c. c \<noteq> CHR ''.'') (rev base));
          pre = take (length base - length ext) base
      in if CHR ''.'' \<notin> set base then []
         else if pre = [] then []
         else if base = ''..'' then []
         else ext)"

datatype dl_error = PathTraversal string | DownloadFailed

definition sanitizePath :: "string \<Rightarrow> string \<Rightarrow> string \<Rightarrow> dl_error + string" where
  "sanitizePath cwd basePath relativePath =
     (let fullPath = path_resolve cwd [basePath, relativePath]
      in if \<not> startsWith fullPath (path_resolve cwd [basePath])
         then Inl (PathTraversal relativePath)
         else Inr fullPath)"

text \<open>A path lies inside a root directory when it is the root or below it.\<close>

definition inside_root :: "string \<Rightarrow> string \<Rightarrow> bool" where
  "inside_root root p = (p = root \<or> startsWith p (root @ ''/''))"

text \<open>
  What the body of the \<open>try\<close> does for one file, decided by the network and the file system:
  \<open>fs.mkdir\<close> fails, \<open>downloadFile\<close> fails, \<open>fs.writeFile\<close> fails, or all three succeed and
  the content is written.
\<close>

datatype attempt = MkdirFails | DownloadFails | WriteFails | Succeeds string

text \<open>
  The state of the loop: the two variables of the source, the files written (local path and
  content) and the calls of the progress callback with their arguments.
\<close>

record batch_state =
  downloadedCount :: nat
  failedFiles :: "string list"
  written :: "(string \<times> string) list"
  progress :: "(nat \<times> nat \<times> string) list"

definition relativePath_of :: "string \<Rightarrow> GitHubTreeItem \<Rightarrow> string" where
  "relativePath_of effectivePath file =
     (if effectivePath \<noteq> [] then drop (length effectivePath + 1) (path file) else path file)"

text \<open>
  The \<open>for\<close> loop of \<open>downloadDocs\<close>. \<open>sanitizePath\<close> is called outside the \<open>try\<close>: its error
  ends the loop. The callback \<open>onProgress\<close> is optional; it is called inside the \<open>try\<close>, after
  the count has been raised, and returns \<open>True\<close> when it returns normally and \<open>False\<close> when it
  throws, which the \<open>catch\<close> then handles like any other failure.
\<close>

fun download_loop ::
  "string \<Rightarrow> string \<Rightarrow> string \<Rightarrow> (string \<Rightarrow> string \<Rightarrow> attempt)
     \<Rightarrow> (nat \<Rightarrow> nat \<Rightarrow> string \<Rightarrow> bool) option \<Rightarrow> nat
     \<Rightarrow> GitHubTreeItem list \<Rightarrow> batch_state \<Rightarrow> dl_error option \<times> batch_state" where
  "download_loop cwd docsPath effectivePath io onProgress totalCount [] st = (None, st)"
| "download_loop cwd docsPath effectivePath io onProgress totalCount (file # files) st =
     (let relativePath = relativePath_of effectivePath file
      in case sanitizePath cwd docsPath relativePath of
           Inl e \<Rightarrow> (Some e, st)
         | Inr localPath \<Rightarrow>
             (case io (path file) localPath of
                Succeeds content \<Rightarrow>
                  (let st1 = st\<lparr>written := written st @ [(localPath, content)],
                                 downloadedCount := downloadedCount st + 1\<rparr>
                   in case onProgress of
                        None \<Rightarrow>
                          download_loop cwd docsPath effectivePath io onProgress totalCount files st1
                      | Some cb \<Rightarrow>
                          (let st2 = st1\<lparr>progress := progress st1
                                         @ [(downloadedCount st1, totalCount, relativePath)]\<rparr>
                           in if cb (downloadedCount st1) totalCount relativePath then
                                download_loop cwd docsPath effectivePath io onProgress totalCount files st2
                              else
                                download_loop cwd docsPath effectivePath io onProgress totalCount files
                                  (st2\<lparr>failedFiles := failedFiles st2 @ [relativePath]\<rparr>)))
              | _ \<Rightarrow>
                  download_loop cwd docsPath effectivePath io onProgress totalCount files
                    (st\<lparr>failedFiles := failedFiles st @ [relativePath]\<rparr>)))"

record DownloadResult =
  totalFiles :: nat
  downloadedFiles :: nat
  result_docsPath :: string
  result_sourceName :: string
  detectedPath :: "string option"

text \<open>
  The warning printed for failed files, by the values its text is built from: the number of
  failed files, the first five of them, and the number of the others when there are more.
\<close>

record failure_warning =
  warn_count :: nat
  warn_shown :: "string list"
  warn_more :: "nat option"

text \<open>\<open>targetPath.replace(/^\/|\/$/g, '')\<close>: one slash off the start, then one off the end.\<close>

definition strip_slashes :: "string \<Rightarrow> string" where
  "strip_slashes s =
     (let s1 = (case s of [] \<Rightarrow> [] | c # cs \<Rightarrow> if c = CHR ''/'' then cs else s)
      in if endsWith s1 ''/'' then take (length s1 - 1) s1 else s1)"

text \<open>
  \<open>filterMarkdownFiles\<close>: the files of the tree at or below the target path whose extension
  is one of the three of Markdown.
\<close>

definition filterMarkdownFiles :: "GitHubTreeItem list \<Rightarrow> string \<Rightarrow> GitHubTreeItem list" where
  "filterMarkdownFiles items targetPath =
     (let normalizedPath = strip_slashes targetPath
      in filter (\<lambda>item.
           if type item \<noteq> blob then False
           else if normalizedPath \<noteq> [] \<and> \<not> startsWith (path item) (normalizedPath @ ''/'')
                   \<and> path item \<noteq> normalizedPath then False
           else toLowerCase (path_extname (path item))
                  \<in> set [''.md'', ''.mdx'', ''.markdown'']) items)"

definition initial_state :: batch_state where
  "initial_state = \<lparr>downloadedCount = 0, failedFiles = [], written = [], progress = []\<rparr>"

text \<open>
  \<open>downloadDocs\<close> from the computation of \<open>effectivePath\<close> on. What the lines before it
  compute is passed in: the working directory, the docs directory \<open>docsPath\<close>, the source
  name, the detected path, the target path and the selected files \<open>markdownFiles\<close>. The
  function returns what the source returns or throws, the warning it prints, and the state
  the loop ended in.
\<close>

definition downloadDocs ::
  "string \<Rightarrow> string \<Rightarrow> string \<Rightarrow> string option \<Rightarrow> string
     \<Rightarrow> (string \<Rightarrow> string \<Rightarrow> attempt) \<Rightarrow> (nat \<Rightarrow> nat \<Rightarrow> string \<Rightarrow> bool) option
     \<Rightarrow> GitHubTreeItem list
     \<Rightarrow> (dl_error + DownloadResult) \<times> failure_warning option \<times> batch_state" where
  "downloadDocs cwd docsPath name detected targetPath io onProgress markdownFiles =
     (let effectivePath = strip_slashes targetPath;
          r = download_loop cwd docsPath effectivePath io onProgress (length markdownFiles)
                markdownFiles initial_state;
          st = snd r
      in case fst r of
           Some e \<Rightarrow> (Inl e, None, st)
         | None \<Rightarrow>
             if downloadedCount st = 0 then (Inl DownloadFailed, None, st)
             else
               (Inr \<lparr>totalFiles = length markdownFiles, downloadedFiles = downloadedCount st,
                     result_docsPath = docsPath, result_sourceName = name,
                     detectedPath = detected\<rparr>,
                if length (failedFiles st) > 0 then
                  Some \<lparr>warn_count = length (failedFiles st),
                        warn_shown = take 5 (failedFiles st),
                        warn_more = (if length (failedFiles st) > 5
                                     then Some (length (failedFiles st) - 5) else None)\<rparr>
                else None,
                st))"

text \<open>
  For one selected file: whether \<open>sanitizePath\<close> accepts its relative path, what the
  \<open>try\<close> does for it, and whether that is a success.
\<close>

definition accepted :: "string \<Rightarrow> string \<Rightarrow> string \<Rightarrow> GitHubTreeItem \<Rightarrow> bool" where
  "accepted cwd docsPath effectivePath file =
     (case sanitizePath cwd docsPath (relativePath_of effectivePath file) of
        Inr p \<Rightarrow> True | Inl e \<Rightarrow> False)"

definition attempt_at ::
  "string \<Rightarrow> string \<Rightarrow> string \<Rightarrow> (string \<Rightarrow> string \<Rightarrow> attempt) \<Rightarrow> GitHubTreeItem \<Rightarrow> attempt" where
  "attempt_at cwd docsPath effectivePath io file =
     io (path file) (path_resolve cwd [docsPath, relativePath_of effectivePath file])"

definition succeeded :: "attempt \<Rightarrow> bool" where
  "succeeded a = (case a of Succeeds content \<Rightarrow> True | _ \<Rightarrow> False)"

text \<open>
  Environments for the examples: a network in which the download of the listed paths fails
  and every other file has the content \<open># doc\<close>; a callback that returns normally; a network
  in which every request times out; a file entry of the tree; a network in which the branch
  \<open>main\<close> of \<open>o/r\<close> exists and no other.
\<close>

definition io_failing :: "string list \<Rightarrow> string \<Rightarrow> string \<Rightarrow> attempt" where
  "io_failing bad p localPath = (if p \<in> set bad then DownloadFails else Succeeds ''# doc'')"


definition get_timeout :: "string \<Rightarrow> axios_result" where
  "get_timeout url = Rejected (Some ''ECONNABORTED'') None None ''timeout of 30000ms exceeded''"

definition md :: "string \<Rightarrow> GitHubTreeItem" where
  "md p = \<lparr>path = p, type = blob\<rparr>"

definition get_only_main :: "string \<Rightarrow> axios_result" where
  "get_only_main url =
     (if url = apiUrl ''o'' ''r'' ''main'' then Response [md ''docs/a.md''] False
      else Rejected None (Some 404) None ''Request failed with status code 404'')"

subsection \<open>parseGitHubUrl\<close>

record ParsedGitHubUrl =
  owner :: string
  repo :: string
  branch :: string

datatype url_error = InvalidSource

text \<open>\<open>replace(/\.git$/, '')\<close> and \<open>replace(/\/$/, '')\<close>.\<close>

definition strip_git_suffix :: "string \<Rightarrow> string" where
  "strip_git_suffix s = (if endsWith s ''.git'' then take (length s - 4) s else s)"

definition strip_trailing_slash :: "string \<Rightarrow> string" where
  "strip_trailing_slash s = (if endsWith s ''/'' then take (length s - 1) s else s)"

text \<open>
  The regular expression \<open>/github\.com\/([^\/]+)\/([^\/]+)(?:\/tree\/([^\/]+))?/\<close>.
  \<open>match_here\<close> matches it at the start of its argument: \<open>[^\/]+\<close> is greedy and is
  followed by a slash or by the end of the pattern, so each group is the longest run of
  characters other than the slash, and must not be empty; the optional group is taken when
  it matches and is \<open>undefined\<close> otherwise, which \<open>match[3] || ''\<close> turns into the empty
  string. \<open>regex_search\<close> is \<open>String.prototype.match\<close>: the leftmost offset that matches.
\<close>

definition match_here :: "string \<Rightarrow> (string \<times> string \<times> string) option" where
  "match_here s =
     (if \<not> prefix ''github.com/'' s then None
      else
        (let r1 = drop (length ''github.com/'') s;
             g1 = takeWhile not_slash r1;
             r2 = dropWhile not_slash r1
         in if g1 = [] \<or> r2 = [] then None
            else
              (let r3 = tl r2;
                   g2 = takeWhile not_slash r3;
                   r4 = dropWhile not_slash r3;
                   g3 = takeWhile not_slash (drop (length ''/tree/'') r4)
               in if g2 = [] then None
                  else if prefix ''/tree/'' r4 \<and> g3 \<noteq> [] then Some (g1, g2, g3)
                  else Some (g1, g2, []))))"

fun regex_search :: "string \<Rightarrow> (string \<times> string \<times> string) option" where
  "regex_search [] = match_here []"
| "regex_search (c # cs) =
     (case match_here (c # cs) of Some m \<Rightarrow> Some m | None \<Rightarrow> regex_search cs)"

definition parseGitHubUrl :: "string \<Rightarrow> url_error + ParsedGitHubUrl" where
  "parseGitHubUrl url =
     (let cleanUrl0 = trim url;
          cleanUrl1 = (if \<not> startsWith cleanUrl0 ''http'' then ''https://'' @ cleanUrl0
                       else cleanUrl0);
          cleanUrl = strip_trailing_slash (strip_git_suffix cleanUrl1)
      in case regex_search cleanUrl of
           None \<Rightarrow> Inl InvalidSource
         | Some (g1, g2, g3) \<Rightarrow> Inr \<lparr>owner = g1, repo = g2, branch = g3\<rparr>)"

definition segment :: "string \<Rightarrow> bool" where
  "segment s = (s \<noteq> [] \<and> CHR ''/'' \<notin> set s)"

definition last_segment :: "string \<Rightarrow> bool" where
  "last_segment s = (segment s \<and> \<not> is_ws (last s) \<and> \<not> endsWith s ''.git'')"

section \<open>indexer.ts: the compressed index\<close>

text \<open>
  \<open>Array.prototype.sort\<close> with a comparison function is a stable sort; for a consistent
  comparison function its result is that of insertion sort. Without a comparison function
  it orders strings by their code units, which is \<^const>\<open>sort\<close> on \<^typ>\<open>string\<close>.
\<close>

fun insert_by :: "('a \<Rightarrow> 'a \<Rightarrow> int) \<Rightarrow> 'a \<Rightarrow> 'a list \<Rightarrow> 'a list" where
  "insert_by cmp x [] = [x]"
| "insert_by cmp x (y # ys) = (if cmp x y \<le> 0 then x # y # ys else y # insert_by cmp x ys)"

definition sort_by :: "('a \<Rightarrow> 'a \<Rightarrow> int) \<Rightarrow> 'a list \<Rightarrow> 'a list" where
  "sort_by cmp xs = foldr (insert_by cmp) xs []"

text \<open>
  An \<open>IndexedDirectory\<close> is the list of its properties in the order of \<open>Object.keys\<close>: each
  directory key once, with its array of file names. \<open>grouped[dir]\<close> reads the array of a key.
\<close>

type_synonym IndexedDirectory = "(string \<times> string list) list"

definition files_of :: "IndexedDirectory \<Rightarrow> string \<Rightarrow> string list" where
  "files_of grouped dir = (case map_of grouped dir of Some fs \<Rightarrow> fs | None \<Rightarrow> [])"

text \<open>
  The comparison function of the directories: the empty key first, then
  \<open>a.localeCompare(b)\<close>. \<open>String.prototype.localeCompare\<close> compares by the collation of the
  host's locale; it is a parameter of the model.
\<close>

definition compareDirs :: "(string \<Rightarrow> string \<Rightarrow> int) \<Rightarrow> string \<Rightarrow> string \<Rightarrow> int" where
  "compareDirs localeCompare a b =
     (if a = [] then - 1 else if b = [] then 1 else localeCompare a b)"

text \<open>One line of the index: the body of the loop. \<open>dir.replace(/\\/g, '/')\<close> turns every
  backslash into a slash.\<close>

definition index_line :: "string \<Rightarrow> string \<Rightarrow> string list \<Rightarrow> string" where
  "index_line rootName dir files =
     (let normalizedDir = map (\<lambda>c. if c = CHR 0x5C then CHR ''/'' else c) dir;
          dirDisplay = (if dir = [] then rootName else rootName @ ''/'' @ normalizedDir)
      in dirDisplay @ '':{'' @ join '','' files @ ''}'')"

definition generateCompressedIndex ::
  "(string \<Rightarrow> string \<Rightarrow> int) \<Rightarrow> IndexedDirectory \<Rightarrow> string \<Rightarrow> string" where
  "generateCompressedIndex localeCompare grouped rootPath =
     (let rootName = path_basename rootPath;
          sortedDirs = sort_by (compareDirs localeCompare) (map fst grouped)
      in join ''\<newline>''
           (map (\<lambda>dir. index_line rootName dir (sort (files_of grouped dir))) sortedDirs))"

text \<open>
  \<open>grouped[dir].sort()\<close> sorts the arrays of the caller's mapping in place: the mapping as a
  call of \<open>generateCompressedIndex\<close> leaves it.
\<close>

definition sorted_in_place :: "IndexedDirectory \<Rightarrow> IndexedDirectory" where
  "sorted_in_place grouped = map (\<lambda>(dir, files). (dir, sort files)) grouped"

text \<open>
  Two comparison functions for the examples. \<open>compare_code_units\<close> orders strings by their
  code units. \<open>compare_letters\<close> orders strings of ASCII letters as the collations of the ICU
  library do: by the letters without regard to case, and lower case first among strings
  that differ in case only.
\<close>

definition compare_code_units :: "string \<Rightarrow> string \<Rightarrow> int" where
  "compare_code_units a b = (if a < b then - 1 else if a = b then 0 else 1)"

definition compare_letters :: "string \<Rightarrow> string \<Rightarrow> int" where
  "compare_letters a b =
     (if toUpperCase a < toUpperCase b then - 1
      else if toUpperCase b < toUpperCase a then 1
      else if a = b then 0
      else if b < a then - 1 else 1)"

section \<open>Facts about the string primitives\<close>

lemma indexOf_Some_prefix:
  "indexOf s p = Some i \<Longrightarrow> prefix p (drop i s) \<and> i \<le> length s"
proof (induction s arbitrary: i)
  case Nil
  then show ?case by (simp split: if_splits)
next
  case (Cons c cs)
  show ?case
  proof (cases "prefix p (c # cs)")
    case True
    with Cons.prems show ?thesis by simp
  next
    case False
    with Cons.prems obtain k where k: "indexOf cs p = Some k" "i = Suc k"
      by auto
    with Cons.IH [of k] show ?thesis by simp
  qed
qed

lemma indexOf_Some_first:
  "indexOf s p = Some i \<Longrightarrow> k < i \<Longrightarrow> \<not> prefix p (drop k s)"
proof (induction s arbitrary: i k)
  case Nil
  then show ?case by (simp split: if_splits)
next
  case (Cons c cs)
  show ?case
  proof (cases "prefix p (c # cs)")
    case True
    with Cons.prems show ?thesis by simp
  next
    case False
    with Cons.prems obtain j where j: "indexOf cs p = Some j" "i = Suc j"
      by auto
    show ?thesis
    proof (cases k)
      case 0
      with False show ?thesis by simp
    next
      case (Suc k')
      with j Cons.prems Cons.IH [of j k'] show ?thesis by simp
    qed
  qed
qed

lemma indexOf_None_iff:
  "indexOf s p = None \<longleftrightarrow> (\<forall>k \<le> length s. \<not> prefix p (drop k s))"
proof (induction s)
  case Nil
  show ?case by auto
next
  case (Cons c cs)
  show ?case
  proof (cases "prefix p (c # cs)")
    case True
    then show ?thesis by force
  next
    case False
    have "(\<forall>k \<le> length (c # cs). \<not> prefix p (drop k (c # cs)))
          \<longleftrightarrow> (\<forall>k \<le> length cs. \<not> prefix p (drop k cs))"
    proof
      assume a: "\<forall>k \<le> length (c # cs). \<not> prefix p (drop k (c # cs))"
      show "\<forall>k \<le> length cs. \<not> prefix p (drop k cs)"
      proof (intro allI impI)
        fix k assume "k \<le> length cs"
        with a [rule_format, of "Suc k"] show "\<not> prefix p (drop k cs)" by simp
      qed
    next
      assume a: "\<forall>k \<le> length cs. \<not> prefix p (drop k cs)"
      show "\<forall>k \<le> length (c # cs). \<not> prefix p (drop k (c # cs))"
      proof (intro allI impI)
        fix k assume k: "k \<le> length (c # cs)"
        show "\<not> prefix p (drop k (c # cs))"
        proof (cases k)
          case 0
          with False show ?thesis by simp
        next
          case (Suc k')
          with k a [rule_format, of k'] show ?thesis by simp
        qed
      qed
    qed
    with False Cons.IH show ?thesis by simp
  qed
qed

lemma indexOf_SomeI:
  assumes "prefix p (drop i s)" and "i \<le> length s"
    and "\<And>k. k < i \<Longrightarrow> \<not> prefix p (drop k s)"
  shows "indexOf s p = Some i"
proof (cases "indexOf s p")
  case None
  with assms(1,2) show ?thesis by (simp add: indexOf_None_iff)
next
  case (Some j)
  have "\<not> j < i" using indexOf_Some_prefix [OF Some] assms(3) by blast
  moreover have "\<not> i < j" using indexOf_Some_first [OF Some] assms(1) by blast
  ultimately show ?thesis using Some by simp
qed

lemmas marker_defs = getStartMarker_def getEndMarker_def START_MARKER_PREFIX_def
  END_MARKER_PREFIX_def MARKER_SUFFIX_def

lemma occurrences_card:
  "occurrences s p = card {k. k \<le> length s \<and> prefix p (drop k s)}"
proof (induction s)
  case Nil
  show ?case by (auto simp: Collect_conv_if)
next
  case (Cons c cs)
  let ?A = "{k. k \<le> length cs \<and> prefix p (drop k cs)}"
  let ?Z = "(if prefix p (c # cs) then {0::nat} else {})"
  have "{k. k \<le> length (c # cs) \<and> prefix p (drop k (c # cs))} = ?Z \<union> Suc ` ?A"
  proof (intro set_eqI iffI)
    fix k assume "k \<in> {k. k \<le> length (c # cs) \<and> prefix p (drop k (c # cs))}"
    then show "k \<in> ?Z \<union> Suc ` ?A" by (cases k) auto
  next
    fix k assume "k \<in> ?Z \<union> Suc ` ?A"
    then show "k \<in> {k. k \<le> length (c # cs) \<and> prefix p (drop k (c # cs))}"
      by (auto split: if_splits)
  qed
  moreover have "finite ?A" by simp
  moreover have "card (?Z \<union> Suc ` ?A) = card ?Z + card (Suc ` ?A)"
    by (rule card_Un_disjoint) (auto split: if_splits)
  moreover have "card (Suc ` ?A) = card ?A" by (simp add: card_image)
  ultimately show ?case using Cons.IH by simp
qed

lemma occurrences_ge2:
  assumes "prefix p (drop a s)" "prefix p (drop b s)" "a < b" "b \<le> length s"
  shows "2 \<le> occurrences s p"
proof -
  let ?A = "{k. k \<le> length s \<and> prefix p (drop k s)}"
  have "{a, b} \<subseteq> ?A" using assms by auto
  moreover have "finite ?A" by simp
  ultimately have "card {a, b} \<le> card ?A" by (rule card_mono [rotated])
  with assms(3) show ?thesis by (simp add: occurrences_card)
qed

lemma trimEnd_decomp: "\<exists>w. trimEnd s @ w = s \<and> (\<forall>c \<in> set w. is_ws c)"
proof -
  have "rev (dropWhile is_ws (rev s)) @ rev (takeWhile is_ws (rev s))
        = rev (takeWhile is_ws (rev s) @ dropWhile is_ws (rev s))"
    by (simp only: rev_append)
  also have "\<dots> = s"
    by (simp only: takeWhile_dropWhile_id rev_rev_ident)
  finally have "rev (dropWhile is_ws (rev s)) @ rev (takeWhile is_ws (rev s)) = s" .
  moreover have "\<forall>c \<in> set (rev (takeWhile is_ws (rev s))). is_ws c"
    by (auto dest: set_takeWhileD)
  ultimately show ?thesis unfolding trimEnd_def by blast
qed

lemma prefix_drop_length:
  assumes "prefix p (drop j s)" and "p \<noteq> []"
  shows "j + length p \<le> length s"
proof -
  from assms(1) have "length p \<le> length (drop j s)" by (rule prefix_length_le)
  then have "length p \<le> length s - j" by simp
  moreover from assms(2) have "0 < length p" by simp
  ultimately show ?thesis by arith
qed

lemma occurrence_within_trimEnd:
  assumes p: "prefix p (drop j s)" and ne: "p \<noteq> []" and l: "\<not> is_ws (last p)"
  shows "j + length p \<le> length (trimEnd s)"
proof (rule ccontr)
  assume c: "\<not> j + length p \<le> length (trimEnd s)"
  obtain w where w: "trimEnd s @ w = s" "\<forall>c \<in> set w. is_ws c"
    using trimEnd_decomp by blast
  have lw: "length s = length (trimEnd s) + length w"
    using arg_cong [OF w(1), of length] by simp
  have len: "j + length p \<le> length s" using p ne by (rule prefix_drop_length)
  have pos: "0 < length p" using ne by simp
  define m where "m = j + length p - 1"
  have m: "m < length s" "length (trimEnd s) \<le> m" "m = j + (length p - 1)"
    unfolding m_def using len pos c by arith+
  have "s ! m = drop j s ! (length p - 1)" using len m by simp
  also have "\<dots> = p ! (length p - 1)"
    using p pos by (auto simp: prefix_def nth_append)
  also have "\<dots> = last p" using ne by (simp add: last_conv_nth)
  finally have a: "s ! m = last p" .
  have "s ! m = (trimEnd s @ w) ! m" using w(1) by simp
  also have "\<dots> = w ! (m - length (trimEnd s))" using m(2) by (simp add: nth_append)
  finally have "s ! m \<in> set w" using m lw by simp
  with a w(2) l show False by auto
qed


lemma getEndMarker_last:
  "getEndMarker n \<noteq> [] \<and> \<not> is_ws (last (getEndMarker n))"
  by (simp add: marker_defs is_ws_def)

lemma getStartMarker_last:
  "getStartMarker n \<noteq> [] \<and> \<not> is_ws (last (getStartMarker n))"
  by (simp add: marker_defs is_ws_def)

lemma generateIndexBlock_end:
  "\<exists>b. generateIndexBlock n d r c = b @ getEndMarker n"
  by (simp add: generateIndexBlock_def)

lemma occurrence_kept_by_append:
  assumes p: "prefix p (drop j s)" and ne: "p \<noteq> []" and l: "\<not> is_ws (last p)"
  shows "prefix p (drop j (trimEnd s @ t))"
proof -
  have le: "j + length p \<le> length (trimEnd s)"
    using p ne l by (rule occurrence_within_trimEnd)
  obtain w where w: "trimEnd s @ w = s" using trimEnd_decomp by blast
  have "prefix p (drop j (trimEnd s) @ w)"
    using p le arg_cong [OF w, of "drop j"] by simp
  moreover have "length p \<le> length (drop j (trimEnd s))" using le by simp
  ultimately have "prefix p (drop j (trimEnd s))"
    by (metis prefix_length_prefix prefixI)
  then have "prefix p (drop j (trimEnd s) @ t)" by (rule prefix_prefix)
  then show ?thesis using le by simp
qed

section \<open>Upsert: replace, refuse, append\<close>





section \<open>Upsert on a document with an end marker and no start marker\<close>

text \<open>
  Claim C10. When the document holds an end marker of the identifier (first at offset \<open>j\<close>)
  and no start marker, \<open>updateContent\<close> does not fail: it returns the document trimmed at
  its end, an empty line, the generated block and a line feed. The old end marker is still
  at offset \<open>j\<close>, the end marker of the new block lies at a later offset \<open>k\<close>, and so the
  result holds at least two end markers of the identifier.
\<close>

theorem updateContent_orphan_end_marker:
  assumes s: "indexOf doc (getStartMarker sourceName) = None"
    and e: "indexOf doc (getEndMarker sourceName) = Some j"
  shows "let B = generateIndexBlock sourceName displayName rootPath compressedIndex;
             E = getEndMarker sourceName;
             r = trimEnd doc @ ''\<newline>\<newline>'' @ B @ ''\<newline>'';
             k = length (trimEnd doc) + 2 + (length B - length E)
         in updateContent doc sourceName B = Inr r
            \<and> prefix E (drop j r) \<and> prefix E (drop k r) \<and> j < k
            \<and> 2 \<le> occurrences r E"
proof -
  define B where "B = generateIndexBlock sourceName displayName rootPath compressedIndex"
  define E where "E = getEndMarker sourceName"
  define r where "r = trimEnd doc @ ''\<newline>\<newline>'' @ B @ ''\<newline>''"
  define k where "k = length (trimEnd doc) + 2 + (length B - length E)"
  have E: "E \<noteq> []" "\<not> is_ws (last E)" using getEndMarker_last by (simp_all add: E_def)
  have pj: "prefix E (drop j doc)" using indexOf_Some_prefix [OF e] by (simp add: E_def)
  have u: "updateContent doc sourceName B = Inr r"
    using s e by (simp add: updateContent_def r_def)
  have a: "prefix E (drop j r)"
    unfolding r_def using pj E by (rule occurrence_kept_by_append)
  obtain b where b: "B = b @ E"
    using generateIndexBlock_end [of sourceName displayName rootPath compressedIndex]
    unfolding B_def E_def by blast
  have kk: "k = length (trimEnd doc) + 2 + length b" by (simp add: k_def b)
  have "drop k r = E @ ''\<newline>''" by (simp add: r_def kk b)
  then have c: "prefix E (drop k r)" by simp
  have "j + length E \<le> length (trimEnd doc)"
    using pj E by (rule occurrence_within_trimEnd)
  moreover have "0 < length E" using E by simp
  ultimately have d: "j < k" unfolding kk by arith
  have "k \<le> length r" by (simp add: r_def kk b)
  with a c d have "2 \<le> occurrences r E" by (rule occurrences_ge2)
  with u a c d show ?thesis by (simp add: B_def E_def r_def k_def Let_def)
qed

theorem updateContent_orphan_end_marker_witness:
  "indexOf ''<!-- DOCS-INDEX-END:x -->  '' (getStartMarker ''x'') = None
   \<and> indexOf ''<!-- DOCS-INDEX-END:x -->  '' (getEndMarker ''x'') = Some 0
   \<and> updateContent ''<!-- DOCS-INDEX-END:x -->  '' ''x'' (generateIndexBlock ''x'' ''X'' ''r'' ''i'')
       = Inr (''<!-- DOCS-INDEX-END:x -->'' @ ''\<newline>\<newline>''
              @ generateIndexBlock ''x'' ''X'' ''r'' ''i'' @ ''\<newline>'')
   \<and> 2 \<le> occurrences (''<!-- DOCS-INDEX-END:x -->'' @ ''\<newline>\<newline>''
                          @ generateIndexBlock ''x'' ''X'' ''r'' ''i'' @ ''\<newline>'')
            (getEndMarker ''x'')"
proof -
  let ?d = "''<!-- DOCS-INDEX-END:x -->  ''"
  have s: "indexOf ?d (getStartMarker ''x'') = None" by (simp add: marker_defs)
  have e: "indexOf ?d (getEndMarker ''x'') = Some 0" by (simp add: marker_defs)
  have t: "trimEnd ?d = ''<!-- DOCS-INDEX-END:x -->''" by (simp add: trimEnd_def is_ws_def)
  show ?thesis
    using updateContent_orphan_end_marker [OF s e, of "''X''" "''r''" "''i''"] s e
    unfolding Let_def t by blast
qed


section \<open>Where the markers of a valid identifier can occur\<close>

lemma prefix_drop_append_left:
  assumes "k + length p \<le> length x"
  shows "prefix p (drop k (x @ y)) \<longleftrightarrow> prefix p (drop k x)"
proof
  assume a: "prefix p (drop k (x @ y))"
  have "drop k (x @ y) = drop k x @ y" using assms by simp
  with a have "prefix p (drop k x @ y)" by simp
  moreover have "prefix (drop k x) (drop k x @ y)" by simp
  moreover have "length p \<le> length (drop k x)" using assms by simp
  ultimately show "prefix p (drop k x)" by (rule prefix_length_prefix)
next
  assume "prefix p (drop k x)"
  then have "prefix p (drop k x @ y)" by (rule prefix_prefix)
  then show "prefix p (drop k (x @ y))" using assms by simp
qed

lemma prefix_drop_append_right:
  "prefix p (drop (length x + k) (x @ y)) \<longleftrightarrow> prefix p (drop k y)"
  by simp

lemma comment_open_skip:
  assumes "CHR ''<'' \<notin> set A" and "prefix ''<!--'' (drop q (A @ Z))"
  shows "length A \<le> q \<and> prefix ''<!--'' (drop (q - length A) Z)"
proof (cases "q < length A")
  case True
  then have "drop q (A @ Z) = drop q A @ Z" and ne: "drop q A \<noteq> []" by simp_all
  with assms(2) have "prefix ''<!--'' (drop q A @ Z)" by simp
  with ne have "hd (drop q A) = CHR ''<''"
    by (cases "drop q A") (auto simp: prefix_def)
  moreover have "hd (drop q A) \<in> set A" using ne
    by (metis hd_in_set in_set_dropD)
  ultimately show ?thesis using assms(1) by simp
next
  case False
  with assms(2) show ?thesis by simp
qed

lemma comment_open_not_in_tail:
  assumes n: "indexOf n ''<!--'' = None" and p: "prefix ''<!--'' (drop r (n @ '' -->''))"
  shows False
proof (cases "r + 4 \<le> length n")
  case True
  then have "prefix ''<!--'' (drop r n)"
    using p prefix_drop_append_left [of r "''<!--''" n "'' -->''"] by simp
  moreover have "r \<le> length n" using True by simp
  ultimately show False using n by (simp add: indexOf_None_iff)
next
  case False
  show False
  proof (cases "length n \<le> r")
    case True
    have "prefix ''<!--'' (drop (r - length n) ('' -->'' @ []))" using p True by simp
    then have "prefix ''<!--'' (drop (r - length n - length '' -->'') [])"
      using comment_open_skip [of "'' -->''" "r - length n" "[]"] by simp
    then show False by simp
  next
    case r: False
    define u where "u = drop r n"
    have lu: "0 < length u" "length u < 4" using r False by (simp_all add: u_def)
    have "prefix ''<!--'' (u @ '' -->'')" using p r by (simp add: u_def)
    with lu show False
      by (cases u; cases "tl u"; cases "tl (tl u)"; cases "tl (tl (tl u))") auto
  qed
qed

lemma valid_name_no_comment_open:
  "validateSourceName n = None \<Longrightarrow> indexOf n ''<!--'' = None"
  by (simp add: validateSourceName_def includes_str_def split: if_splits)

lemma startMarker_comment_open:
  assumes "indexOf n ''<!--'' = None" and "prefix ''<!--'' (drop k (getStartMarker n))"
  shows "k = 0"
proof (cases k)
  case 0
  then show ?thesis .
next
  case (Suc q)
  have "getStartMarker n = CHR ''<'' # ''!-- DOCS-INDEX-START:'' @ n @ '' -->''"
    by (simp add: marker_defs)
  with assms(2) Suc have "prefix ''<!--'' (drop q (''!-- DOCS-INDEX-START:'' @ n @ '' -->''))"
    by simp
  then have "prefix ''<!--'' (drop (q - length ''!-- DOCS-INDEX-START:'') (n @ '' -->''))"
    using comment_open_skip [of "''!-- DOCS-INDEX-START:''" q "n @ '' -->''"] by simp
  with assms(1) show ?thesis using comment_open_not_in_tail by blast
qed

lemma endMarker_comment_open:
  assumes "indexOf n ''<!--'' = None" and "prefix ''<!--'' (drop k (getEndMarker n))"
  shows "k = 0"
proof (cases k)
  case 0
  then show ?thesis .
next
  case (Suc q)
  have "getEndMarker n = CHR ''<'' # ''!-- DOCS-INDEX-END:'' @ n @ '' -->''"
    by (simp add: marker_defs)
  with assms(2) Suc have "prefix ''<!--'' (drop q (''!-- DOCS-INDEX-END:'' @ n @ '' -->''))"
    by simp
  then have "prefix ''<!--'' (drop (q - length ''!-- DOCS-INDEX-END:'') (n @ '' -->''))"
    using comment_open_skip [of "''!-- DOCS-INDEX-END:''" q "n @ '' -->''"] by simp
  with assms(1) show ?thesis using comment_open_not_in_tail by blast
qed

text \<open>A marker never lies across the empty line that separates an appended block.\<close>

lemma marker_not_across_gap:
  assumes a: "prefix ''<!--'' M"
    and b: "\<And>k. prefix ''<!--'' (drop k M) \<Longrightarrow> k = 0"
    and c: "last M = CHR ''>''"
    and y: "prefix ''<!--'' Y"
    and p: "prefix M (drop k (T @ ''\<newline>\<newline>'' @ Y))"
    and k: "k < length T + 2"
  shows "k + length M \<le> length T"
proof (rule ccontr)
  assume n: "\<not> k + length M \<le> length T"
  from a obtain M' where M: "M = ''<!--'' @ M'" by (auto simp: prefix_def)
  from p obtain R where R: "drop k (T @ ''\<newline>\<newline>'' @ Y) = M @ R" by (auto simp: prefix_def)
  show False
  proof (cases "k < length T")
    case False
    with k have "k = length T \<or> k = length T + 1" by arith
    with R M show False by auto
  next
    case True
    define u where "u = drop k T"
    have lu: "length u < length M" using n True by (simp add: u_def)
    have "u @ ''\<newline>\<newline>'' @ Y = M @ R" using R True by (simp add: u_def)
    with lu obtain M2 where M2: "M = u @ M2" "M2 @ R = ''\<newline>\<newline>'' @ Y" "M2 \<noteq> []"
      by (auto simp: append_eq_append_conv2)
    from M2(2,3) obtain M3 where M3: "M2 = CHR 0x0A # M3" "M3 @ R = CHR 0x0A # Y"
      by (cases M2) auto
    show False
    proof (cases M3)
      case Nil
      with M2(1) M3(1) c show False by simp
    next
      case (Cons x M4)
      with M3(2) have M4: "M3 = CHR 0x0A # M4" "M4 @ R = Y" by auto
      show False
      proof (cases "M4 = []")
        case True
        with M2(1) M3(1) M4(1) c show False by simp
      next
        case ne: False
        have lastM: "last M = last M4" using M2(1) M3(1) M4(1) ne by simp
        from y M4(2) have "prefix ''<!--'' (M4 @ R)" by simp
        then have "prefix ''<!--'' M4 \<or> (length M4 < 4 \<and> prefix M4 ''<!--'')"
        proof (subst (asm) prefix_append, elim disjE exE conjE)
          assume "prefix ''<!--'' M4"
          then show ?thesis ..
        next
          fix us assume us: "''<!--'' = M4 @ us"
          then have pm: "prefix M4 ''<!--''" by (metis prefixI)
          have "length ''<!--'' = length M4 + length us"
            using arg_cong [OF us, of length] by simp
          then have "length M4 \<le> 4" by simp
          show ?thesis
          proof (cases "length M4 = 4")
            case True
            with \<open>length ''<!--'' = length M4 + length us\<close> have "us = []" by simp
            with us have "M4 = ''<!--''" by simp
            then show ?thesis by simp
          next
            case False
            with \<open>length M4 \<le> 4\<close> pm show ?thesis by simp
          qed
        qed
        then show False
        proof
          assume "prefix ''<!--'' M4"
          then have "prefix ''<!--'' (drop (length u + 2) M)"
            using M2(1) M3(1) M4(1) by simp
          from b [OF this] show False by simp
        next
          assume s: "length M4 < 4 \<and> prefix M4 ''<!--''"
          with ne have "last M4 \<noteq> CHR ''>''"
            by (cases M4; cases "tl M4"; cases "tl (tl M4)"; cases "tl (tl (tl M4))") auto
          with lastM c show False by simp
        qed
      qed
    qed
  qed
qed

lemma startMarker_shape:
  "prefix ''<!--'' (getStartMarker n) \<and> last (getStartMarker n) = CHR ''>''"
  by (simp add: marker_defs)

lemma endMarker_shape:
  "prefix ''<!--'' (getEndMarker n) \<and> last (getEndMarker n) = CHR ''>''"
  by (simp add: marker_defs)

lemma marker_lengths: "length (getEndMarker n) \<le> length (getStartMarker n)"
  by (simp add: marker_defs)

lemma appended_first_marker:
  assumes a: "prefix ''<!--'' M"
    and b: "\<And>k. prefix ''<!--'' (drop k M) \<Longrightarrow> k = 0"
    and c: "last M = CHR ''>''"
    and y: "prefix ''<!--'' Y"
    and none: "indexOf doc M = None"
    and p: "prefix M (drop k (trimEnd doc @ ''\<newline>\<newline>'' @ Y))"
  shows "length (trimEnd doc) + 2 \<le> k"
proof (rule ccontr)
  assume "\<not> length (trimEnd doc) + 2 \<le> k"
  then have k: "k < length (trimEnd doc) + 2" by simp
  have le: "k + length M \<le> length (trimEnd doc)"
    using a b c y p k by (rule marker_not_across_gap)
  then have "prefix M (drop k (trimEnd doc))"
    using p prefix_drop_append_left by blast
  moreover obtain w where w: "trimEnd doc @ w = doc" using trimEnd_decomp by blast
  ultimately have "prefix M (drop k doc)"
    using prefix_drop_append_left [OF le, of w] by simp
  moreover have "k \<le> length doc" using le arg_cong [OF w, of length] by simp
  ultimately show False using none by (simp add: indexOf_None_iff)
qed

lemma block_end_marker_fits:
  assumes "indexOf B E = Some (length B - length E)"
  shows "length E \<le> length B"
proof -
  have "prefix E (drop (length B - length E) B)"
    using indexOf_Some_prefix [OF assms] by simp
  then have "length E \<le> length (drop (length B - length E) B)" by (rule prefix_length_le)
  then show ?thesis by simp
qed

lemma append_then_indices:
  assumes n: "indexOf n ''<!--'' = None"
    and s: "indexOf doc (getStartMarker n) = None"
    and e: "indexOf doc (getEndMarker n) = None"
    and B: "prefix (getStartMarker n) B"
    and BE: "indexOf B (getEndMarker n) = Some (length B - length (getEndMarker n))"
  shows "indexOf (trimEnd doc @ ''\<newline>\<newline>'' @ B @ ''\<newline>'') (getStartMarker n)
           = Some (length (trimEnd doc) + 2)"
    and "indexOf (trimEnd doc @ ''\<newline>\<newline>'' @ B @ ''\<newline>'') (getEndMarker n)
           = Some (length (trimEnd doc) + 2 + (length B - length (getEndMarker n)))"
proof -
  let ?T = "trimEnd doc" and ?S = "getStartMarker n" and ?E = "getEndMarker n"
  let ?d = "?T @ ''\<newline>\<newline>'' @ B @ ''\<newline>''"
  have y: "prefix ''<!--'' (B @ ''\<newline>'')"
    using B startMarker_shape [of n] by (meson prefix_order.trans prefix_prefix)
  have fit: "length ?E \<le> length B" using BE by (rule block_end_marker_fits)
  show "indexOf ?d ?S = Some (length ?T + 2)"
  proof (rule indexOf_SomeI)
    have "drop (length ?T + 2) ?d = B @ ''\<newline>''" by simp
    then show "prefix ?S (drop (length ?T + 2) ?d)" using B by (simp add: prefix_prefix)
    show "length ?T + 2 \<le> length ?d" by simp
    fix k assume k: "k < length ?T + 2"
    show "\<not> prefix ?S (drop k ?d)"
    proof
      assume "prefix ?S (drop k ?d)"
      then have "length ?T + 2 \<le> k"
        using appended_first_marker [of ?S "B @ ''\<newline>''" doc k]
          startMarker_shape [of n] startMarker_comment_open [OF n] y s by simp
      with k show False by simp
    qed
  qed
  show "indexOf ?d ?E = Some (length ?T + 2 + (length B - length ?E))"
  proof (rule indexOf_SomeI)
    have "drop (length ?T + 2 + (length B - length ?E)) ?d
            = drop (length B - length ?E) B @ ''\<newline>''" by simp
    moreover have "prefix ?E (drop (length B - length ?E) B)"
      using indexOf_Some_prefix [OF BE] by simp
    ultimately show "prefix ?E (drop (length ?T + 2 + (length B - length ?E)) ?d)"
      by (simp add: prefix_prefix)
    show "length ?T + 2 + (length B - length ?E) \<le> length ?d" by simp
    fix k assume k: "k < length ?T + 2 + (length B - length ?E)"
    show "\<not> prefix ?E (drop k ?d)"
    proof
      assume p: "prefix ?E (drop k ?d)"
      then have ge: "length ?T + 2 \<le> k"
        using appended_first_marker [of ?E "B @ ''\<newline>''" doc k]
          endMarker_shape [of n] endMarker_comment_open [OF n] y e by simp
      define k' where "k' = k - (length ?T + 2)"
      have k': "k = length ?T + 2 + k'" "k' < length B - length ?E"
        using ge k by (simp_all add: k'_def)
      have "drop k ?d = drop k' (B @ ''\<newline>'')" by (simp add: k'(1))
      with p have "prefix ?E (drop k' (B @ ''\<newline>''))" by simp
      moreover have "k' + length ?E \<le> length B" using k'(2) by simp
      ultimately have "prefix ?E (drop k' B)"
        using prefix_drop_append_left by blast
      with indexOf_Some_first [OF BE k'(2)] show False by simp
    qed
  qed
qed

lemma replace_then_indices:
  assumes s: "indexOf doc S = Some i" and e: "indexOf doc E = Some j" and ij: "i < j"
    and len: "length E \<le> length S"
    and B: "prefix S B"
    and BE: "indexOf B E = Some (length B - length E)"
  shows "indexOf (take i doc @ B @ drop (j + length E) doc) S = Some i"
    and "indexOf (take i doc @ B @ drop (j + length E) doc) E = Some (i + (length B - length E))"
proof -
  let ?a = "take i doc" and ?c = "drop (j + length E) doc"
  let ?d = "?a @ B @ ?c"
  have i: "i \<le> length doc" and pS: "prefix S (drop i doc)"
    using indexOf_Some_prefix [OF s] by simp_all
  have la: "length ?a = i" using i by simp
  from pS obtain rest where rest: "drop i doc = S @ rest" by (auto simp: prefix_def)
  have doc: "(?a @ S) @ rest = doc" using rest by (metis append.assoc append_take_drop_id)
  from B obtain B' where B': "B = S @ B'" by (auto simp: prefix_def)
  have d: "?d = (?a @ S) @ B' @ ?c" by (simp add: B')
  have fit: "length E \<le> length B" using BE by (rule block_end_marker_fits)
  have early: "prefix p (drop k ?d) \<longleftrightarrow> prefix p (drop k doc)"
    if "k < i" "length p \<le> length S" for p k
  proof -
    have le: "k + length p \<le> length (?a @ S)" using that la by simp
    have "prefix p (drop k ?d) \<longleftrightarrow> prefix p (drop k (?a @ S))"
      unfolding d using le by (rule prefix_drop_append_left)
    also have "\<dots> \<longleftrightarrow> prefix p (drop k ((?a @ S) @ rest))"
      using le by (rule prefix_drop_append_left [symmetric])
    finally show ?thesis unfolding doc .
  qed
  show "indexOf ?d S = Some i"
  proof (rule indexOf_SomeI)
    have "drop i ?d = B @ ?c" using la by simp
    then show "prefix S (drop i ?d)" using B by (simp add: prefix_prefix)
    show "i \<le> length ?d" using la by simp
    fix k assume k: "k < i"
    then show "\<not> prefix S (drop k ?d)"
      using early [of k S] indexOf_Some_first [OF s k] by simp
  qed
  show "indexOf ?d E = Some (i + (length B - length E))"
  proof (rule indexOf_SomeI)
    have "drop (i + (length B - length E)) ?d = drop (length B - length E) B @ ?c"
      using la by simp
    moreover have "prefix E (drop (length B - length E) B)"
      using indexOf_Some_prefix [OF BE] by simp
    ultimately show "prefix E (drop (i + (length B - length E)) ?d)"
      by (simp add: prefix_prefix)
    show "i + (length B - length E) \<le> length ?d" using la by simp
    fix k assume k: "k < i + (length B - length E)"
    show "\<not> prefix E (drop k ?d)"
    proof (cases "k < i")
      case True
      then have "k < j" using ij by simp
      then show ?thesis using early [OF True len] indexOf_Some_first [OF e] by simp
    next
      case False
      define k' where "k' = k - i"
      have k': "k = i + k'" "k' < length B - length E" using False k by (simp_all add: k'_def)
      have dk: "drop k ?d = drop k' (B @ ?c)" using la by (simp add: k'(1))
      have le: "k' + length E \<le> length B" using k'(2) by simp
      have "prefix E (drop k' (B @ ?c)) \<longleftrightarrow> prefix E (drop k' B)"
        using le by (rule prefix_drop_append_left)
      moreover have "\<not> prefix E (drop k' B)" using BE k'(2) by (rule indexOf_Some_first)
      ultimately show ?thesis unfolding dk by blast
    qed
  qed
qed

lemma collapse_trailing_after_trimEnd:
  "collapse_trailing_newlines (trimEnd doc @ ''\<newline>\<newline>'') = trimEnd doc @ ''\<newline>''"
proof -
  have r: "rev (trimEnd doc) = dropWhile is_ws (rev doc)" by (simp add: trimEnd_def)
  have "dropWhile (\<lambda>c. c = CHR 0x0A) (rev (trimEnd doc)) = rev (trimEnd doc)"
  proof (cases "dropWhile is_ws (rev doc)")
    case Nil
    show ?thesis unfolding r Nil by simp
  next
    case (Cons x xs)
    then have "\<not> is_ws x" by (metis hd_dropWhile list.sel(1) list.distinct(1))
    then have "x \<noteq> CHR 0x0A" by (auto simp: is_ws_def)
    then show ?thesis unfolding r Cons by simp
  qed
  then have "rev (dropWhile (\<lambda>c. c = CHR 0x0A) (rev (trimEnd doc))) = trimEnd doc"
    by simp
  then show ?thesis by (simp add: collapse_trailing_newlines_def)
qed

lemma updateContent_replace:
  "indexOf d (getStartMarker n) = Some a \<Longrightarrow> indexOf d (getEndMarker n) = Some b \<Longrightarrow> a < b
   \<Longrightarrow> updateContent d n B = Inr (take a d @ B @ drop (b + length (getEndMarker n)) d)"
  by (simp add: updateContent_def)

lemma removeSource_found:
  "indexOf d (getStartMarker n) = Some a \<Longrightarrow> indexOf d (getEndMarker n) = Some b
   \<Longrightarrow> removeSource WriteOk n (Some d)
       = (Inr True, Some (collapse_trailing_newlines (take a d)
                          @ collapse_leading_newlines (drop (b + length (getEndMarker n)) d)))"
  by (simp add: removeSource_def)

lemma valid_x: "validateSourceName ''x'' = None"
  by (simp add: validateSourceName_def trim_def trimEnd_def is_ws_def includes_str_def)

lemma block_x_end:
  "indexOf (generateIndexBlock ''x'' ''X'' ''r'' ''i'') (getEndMarker ''x'')
     = Some (length (generateIndexBlock ''x'' ''X'' ''r'' ''i'') - length (getEndMarker ''x''))"
  by (simp add: generateIndexBlock_def marker_defs)

section \<open>Two blocks of one identifier\<close>

text \<open>
  Claim C2. The document \<open><!-- DOCS-INDEX-END:x -->\<close> holds no start marker of \<open>x\<close>, hence no
  block of \<open>x\<close>. Two runs of \<open>generateAgentsMd\<close> for \<open>x\<close> both succeed; the second finds
  the start marker of the block it appended after the old end marker, takes the append branch
  of \<open>updateContent\<close> again, and the document then holds two start markers of \<open>x\<close>.
\<close>

theorem upsert_twice_duplicates_block:
  "occurrences ''<!-- DOCS-INDEX-END:x -->'' (getStartMarker ''x'') = 0
   \<and> generateAgentsMd ''# T'' ''./.docs/x'' WriteOk ''x'' ''x:{a.md}''
        (Some ''<!-- DOCS-INDEX-END:x -->'')
       = (Inr (False, False),
          Some (''<!-- DOCS-INDEX-END:x -->\<newline>\<newline>''
                @ generateIndexBlock ''x'' ''X'' ''./.docs/x'' ''x:{a.md}'' @ ''\<newline>''))
   \<and> generateAgentsMd ''# T'' ''./.docs/x'' WriteOk ''x'' ''x:{a.md}''
        (Some (''<!-- DOCS-INDEX-END:x -->\<newline>\<newline>''
               @ generateIndexBlock ''x'' ''X'' ''./.docs/x'' ''x:{a.md}'' @ ''\<newline>''))
       = (Inr (False, True),
          Some (''<!-- DOCS-INDEX-END:x -->\<newline>\<newline>''
                @ generateIndexBlock ''x'' ''X'' ''./.docs/x'' ''x:{a.md}'' @ ''\<newline>\<newline>''
                @ generateIndexBlock ''x'' ''X'' ''./.docs/x'' ''x:{a.md}'' @ ''\<newline>''))
   \<and> occurrences (''<!-- DOCS-INDEX-END:x -->\<newline>\<newline>''
                @ generateIndexBlock ''x'' ''X'' ''./.docs/x'' ''x:{a.md}'' @ ''\<newline>\<newline>''
                @ generateIndexBlock ''x'' ''X'' ''./.docs/x'' ''x:{a.md}'' @ ''\<newline>'')
         (getStartMarker ''x'') = 2"
  by code_simp

section \<open>Upsert twice, and Upsert followed by Remove\<close>

text \<open>
  Claim C6, as the code has it. Let the identifier pass \<open>validateSourceName\<close>, let the
  generated block hold the end marker of the identifier at its end only, and let the document
  hold either neither marker of the identifier, or both with the first start marker before
  the first end marker. Then \<open>updateContent\<close> succeeds, and applied to its own result with
  the same block it returns that result again. When the document held neither marker,
  \<open>removeSource\<close> applied to the result returns the document with its trailing white space
  replaced by two line feeds.
\<close>

theorem upsert_idempotent_and_removable:
  assumes v: "validateSourceName sourceName = None"
    and B: "B = generateIndexBlock sourceName displayName rootPath compressedIndex"
    and BE: "indexOf B (getEndMarker sourceName)
               = Some (length B - length (getEndMarker sourceName))"
    and doc: "(indexOf doc (getStartMarker sourceName) = None
                \<and> indexOf doc (getEndMarker sourceName) = None)
              \<or> (\<exists>i j. indexOf doc (getStartMarker sourceName) = Some i
                    \<and> indexOf doc (getEndMarker sourceName) = Some j \<and> i < j)"
  shows "\<exists>d. updateContent doc sourceName B = Inr d
             \<and> updateContent d sourceName B = Inr d
             \<and> (indexOf doc (getStartMarker sourceName) = None \<longrightarrow>
                  removeSource WriteOk sourceName (Some d)
                    = (Inr True, Some (trimEnd doc @ ''\<newline>\<newline>'')))"
proof -
  let ?S = "getStartMarker sourceName" and ?E = "getEndMarker sourceName"
  have n: "indexOf sourceName ''<!--'' = None" using v by (rule valid_name_no_comment_open)
  have pB: "prefix ?S B" by (simp add: B generateIndexBlock_def)
  have fit: "length ?E \<le> length B" using BE by (rule block_end_marker_fits)
  from doc show ?thesis
  proof
    assume a0: "indexOf doc ?S = None \<and> indexOf doc ?E = None"
    let ?d = "trimEnd doc @ ''\<newline>\<newline>'' @ B @ ''\<newline>''"
    have u: "updateContent doc sourceName B = Inr ?d" using a0 by (simp add: updateContent_def)
    define a where "a = length (trimEnd doc) + 2"
    define b where "b = a + (length B - length ?E)"
    have si: "indexOf ?d ?S = Some a" and ei: "indexOf ?d ?E = Some b"
      using append_then_indices [OF n _ _ pB BE, of doc] a0 by (simp_all add: a_def b_def)
    have "length ?E < length ?S" by (simp add: marker_defs)
    moreover have "length ?S \<le> length B" using pB by (rule prefix_length_le)
    ultimately have ab: "a < b" and be: "b + length ?E = a + length B"
      unfolding b_def by arith+
    have ta: "take a ?d = trimEnd doc @ ''\<newline>\<newline>''" by (simp add: a_def)
    have db: "drop (a + length B) ?d = ''\<newline>''" by (simp add: a_def)
    have "updateContent ?d sourceName B = Inr (take a ?d @ B @ drop (b + length ?E) ?d)"
      using si ei ab by (rule updateContent_replace)
    then have u2: "updateContent ?d sourceName B = Inr ?d"
      unfolding be ta db by simp
    have "removeSource WriteOk sourceName (Some ?d)
            = (Inr True, Some (collapse_trailing_newlines (take a ?d)
                               @ collapse_leading_newlines (drop (b + length ?E) ?d)))"
      using si ei by (rule removeSource_found)
    then have r: "removeSource WriteOk sourceName (Some ?d)
            = (Inr True, Some (trimEnd doc @ ''\<newline>\<newline>''))"
      unfolding be ta db
      by (simp add: collapse_trailing_after_trimEnd collapse_leading_newlines_def)
    from u u2 r show ?thesis by blast
  next
    assume "\<exists>i j. indexOf doc ?S = Some i \<and> indexOf doc ?E = Some j \<and> i < j"
    then obtain i j where ij: "indexOf doc ?S = Some i" "indexOf doc ?E = Some j" "i < j"
      by blast
    let ?d = "take i doc @ B @ drop (j + length ?E) doc"
    have u: "updateContent doc sourceName B = Inr ?d" using ij by (simp add: updateContent_def)
    define b where "b = i + (length B - length ?E)"
    have si: "indexOf ?d ?S = Some i" and ei: "indexOf ?d ?E = Some b"
      using replace_then_indices [OF ij marker_lengths pB BE] by (simp_all add: b_def)
    have "length ?E < length ?S" by (simp add: marker_defs)
    moreover have "length ?S \<le> length B" using pB by (rule prefix_length_le)
    ultimately have ab: "i < b" and be: "b + length ?E = i + length B"
      unfolding b_def by arith+
    have i: "i \<le> length doc" using indexOf_Some_prefix [OF ij(1)] by simp
    have ta: "take i ?d = take i doc" using i by simp
    have db: "drop (i + length B) ?d = drop (j + length ?E) doc" using i by simp
    have "updateContent ?d sourceName B = Inr (take i ?d @ B @ drop (b + length ?E) ?d)"
      using si ei ab by (rule updateContent_replace)
    then have u2: "updateContent ?d sourceName B = Inr ?d"
      unfolding be ta db by simp
    from u u2 ij(1) show ?thesis by simp
  qed
qed

theorem upsert_idempotent_and_removable_witness:
  "validateSourceName ''x'' = None
   \<and> indexOf (generateIndexBlock ''x'' ''X'' ''r'' ''i'') (getEndMarker ''x'')
       = Some (length (generateIndexBlock ''x'' ''X'' ''r'' ''i'') - length (getEndMarker ''x''))
   \<and> indexOf ''# A \<newline>'' (getStartMarker ''x'') = None
   \<and> indexOf ''# A \<newline>'' (getEndMarker ''x'') = None
   \<and> updateContent ''# A \<newline>'' ''x'' (generateIndexBlock ''x'' ''X'' ''r'' ''i'')
       = Inr (''# A'' @ ''\<newline>\<newline>'' @ generateIndexBlock ''x'' ''X'' ''r'' ''i'' @ ''\<newline>'')
   \<and> updateContent (''# A'' @ ''\<newline>\<newline>'' @ generateIndexBlock ''x'' ''X'' ''r'' ''i'' @ ''\<newline>'')
         ''x'' (generateIndexBlock ''x'' ''X'' ''r'' ''i'')
       = Inr (''# A'' @ ''\<newline>\<newline>'' @ generateIndexBlock ''x'' ''X'' ''r'' ''i'' @ ''\<newline>'')
   \<and> removeSource WriteOk ''x''
         (Some (''# A'' @ ''\<newline>\<newline>'' @ generateIndexBlock ''x'' ''X'' ''r'' ''i'' @ ''\<newline>''))
       = (Inr True, Some (''# A'' @ ''\<newline>\<newline>''))
   \<and> indexOf ''a<!-- DOCS-INDEX-START:x -->old<!-- DOCS-INDEX-END:x -->z'' (getStartMarker ''x'') = Some 1
   \<and> indexOf ''a<!-- DOCS-INDEX-START:x -->old<!-- DOCS-INDEX-END:x -->z'' (getEndMarker ''x'') = Some 31
   \<and> updateContent ''a<!-- DOCS-INDEX-START:x -->old<!-- DOCS-INDEX-END:x -->z'' ''x''
         (generateIndexBlock ''x'' ''X'' ''r'' ''i'')
       = Inr (''a'' @ generateIndexBlock ''x'' ''X'' ''r'' ''i'' @ ''z'')
   \<and> updateContent (''a'' @ generateIndexBlock ''x'' ''X'' ''r'' ''i'' @ ''z'') ''x''
         (generateIndexBlock ''x'' ''X'' ''r'' ''i'')
       = Inr (''a'' @ generateIndexBlock ''x'' ''X'' ''r'' ''i'' @ ''z'')"
proof -
  let ?B = "generateIndexBlock ''x'' ''X'' ''r'' ''i''"
  let ?d1 = "''# A \<newline>''"
  let ?d2 = "''a<!-- DOCS-INDEX-START:x -->old<!-- DOCS-INDEX-END:x -->z''"
  have s1: "indexOf ?d1 (getStartMarker ''x'') = None" by (simp add: marker_defs)
  have e1: "indexOf ?d1 (getEndMarker ''x'') = None" by (simp add: marker_defs)
  have t1: "trimEnd ?d1 = ''# A''" by (simp add: trimEnd_def is_ws_def)
  have u1: "updateContent ?d1 ''x'' ?B = Inr (''# A'' @ ''\<newline>\<newline>'' @ ?B @ ''\<newline>'')"
    using s1 e1 t1 by (simp add: updateContent_def)
  have s2: "indexOf ?d2 (getStartMarker ''x'') = Some 1" by (simp add: marker_defs)
  have e2: "indexOf ?d2 (getEndMarker ''x'') = Some 31" by (simp add: marker_defs)
  have u2: "updateContent ?d2 ''x'' ?B = Inr (''a'' @ ?B @ ''z'')"
    using updateContent_replace [OF s2 e2] by (simp add: marker_defs)
  have r1: "updateContent (''# A'' @ ''\<newline>\<newline>'' @ ?B @ ''\<newline>'') ''x'' ?B
              = Inr (''# A'' @ ''\<newline>\<newline>'' @ ?B @ ''\<newline>'')
            \<and> removeSource WriteOk ''x'' (Some (''# A'' @ ''\<newline>\<newline>'' @ ?B @ ''\<newline>''))
              = (Inr True, Some (''# A'' @ ''\<newline>\<newline>''))"
    using upsert_idempotent_and_removable [OF valid_x refl block_x_end, of ?d1]
      s1 e1 u1 t1 by auto
  have r2: "updateContent (''a'' @ ?B @ ''z'') ''x'' ?B = Inr (''a'' @ ?B @ ''z'')"
    using upsert_idempotent_and_removable [OF valid_x refl block_x_end, of ?d2]
      s2 e2 u2 by auto
  show ?thesis using valid_x block_x_end s1 e1 u1 r1 s2 e2 u2 r2 by blast
qed

text \<open>
  Claim C6 as stated fails. Upsert followed by Remove on a document that already held a block
  of the identifier returns the document without that block, which differs from the document
  before the Upsert even apart from white space. And with a body that is itself the end
  marker of the identifier, a second Upsert changes the result of the first.
\<close>

theorem upsert_roundtrip_and_idempotence_counterexample:
  "updateContent ''a\<newline><!-- DOCS-INDEX-START:x -->old<!-- DOCS-INDEX-END:x -->\<newline>z'' ''x''
       (generateIndexBlock ''x'' ''X'' ''r'' ''i'')
     = Inr (''a\<newline>'' @ generateIndexBlock ''x'' ''X'' ''r'' ''i'' @ ''\<newline>z'')
   \<and> removeSource WriteOk ''x''
       (Some (''a\<newline>'' @ generateIndexBlock ''x'' ''X'' ''r'' ''i'' @ ''\<newline>z''))
     = (Inr True, Some ''a\<newline>\<newline>z'')
   \<and> without_ws ''a\<newline>\<newline>z''
     \<noteq> without_ws ''a\<newline><!-- DOCS-INDEX-START:x -->old<!-- DOCS-INDEX-END:x -->\<newline>z''
   \<and> updateContent [] ''x'' (generateIndexBlock ''x'' ''X'' ''r'' ''<!-- DOCS-INDEX-END:x -->'')
     = Inr (''\<newline>\<newline>'' @ generateIndexBlock ''x'' ''X'' ''r'' ''<!-- DOCS-INDEX-END:x -->'' @ ''\<newline>'')
   \<and> updateContent
       (''\<newline>\<newline>'' @ generateIndexBlock ''x'' ''X'' ''r'' ''<!-- DOCS-INDEX-END:x -->'' @ ''\<newline>'')
       ''x'' (generateIndexBlock ''x'' ''X'' ''r'' ''<!-- DOCS-INDEX-END:x -->'')
     \<noteq> Inr (''\<newline>\<newline>'' @ generateIndexBlock ''x'' ''X'' ''r'' ''<!-- DOCS-INDEX-END:x -->'' @ ''\<newline>'')"
  by (simp add: updateContent_def removeSource_def generateIndexBlock_def
      marker_defs trimEnd_def is_ws_def collapse_trailing_newlines_def
      collapse_leading_newlines_def without_ws_def)


section \<open>Facts about parseGitHubUrl\<close>

lemmas parse_defs = parseGitHubUrl_def trim_def trimEnd_def is_ws_def startsWith_def endsWith_def
  strip_git_suffix_def strip_trailing_slash_def match_here_def not_slash_def

lemma trim_id:
  assumes "s \<noteq> []" "\<not> is_ws (hd s)" "\<not> is_ws (last s)"
  shows "trim s = s"
proof -
  have "dropWhile is_ws s = s" using assms(1,2) by (cases s) auto
  moreover have "dropWhile is_ws (rev s) = rev s"
    using assms(1,3) by (cases "rev s") (auto simp: last_rev [symmetric] simp del: last_rev)
  ultimately show ?thesis by (simp add: trim_def trimEnd_def)
qed

lemma endsWith_append_segment:
  assumes "CHR ''/'' \<notin> set p" and "CHR ''/'' \<notin> set l"
  shows "endsWith (X @ ''/'' @ l) p \<longleftrightarrow> endsWith l p"
proof -
  have "prefix (rev p) (rev l @ CHR ''/'' # rev X) \<longleftrightarrow> prefix (rev p) (rev l)"
  proof
    assume "prefix (rev p) (rev l @ CHR ''/'' # rev X)"
    then have "prefix (rev p) (rev l) \<or>
        (\<exists>us. rev p = rev l @ us \<and> prefix us (CHR ''/'' # rev X))"
      by (simp only: prefix_append)
    then show "prefix (rev p) (rev l)"
    proof
      assume "\<exists>us. rev p = rev l @ us \<and> prefix us (CHR ''/'' # rev X)"
      then obtain us where us: "rev p = rev l @ us" "prefix us (CHR ''/'' # rev X)" by blast
      show ?thesis
      proof (cases us)
        case Nil
        with us(1) show ?thesis by simp
      next
        case (Cons u us')
        with us(2) have "u = CHR ''/''" by simp
        with Cons us(1) have "CHR ''/'' \<in> set (rev p)" by simp
        with assms(1) show ?thesis by simp
      qed
    qed
  next
    assume "prefix (rev p) (rev l)"
    then show "prefix (rev p) (rev l @ CHR ''/'' # rev X)" by (rule prefix_prefix)
  qed
  then show ?thesis by (simp add: endsWith_def)
qed

lemma clean_suffix:
  assumes l: "last_segment l" and sfx: "sfx \<in> {[], ''/'', ''.git''}"
  shows "strip_trailing_slash (strip_git_suffix (X @ ''/'' @ l @ sfx)) = X @ ''/'' @ l"
proof -
  have ns: "CHR ''/'' \<notin> set l" "l \<noteq> []" "\<not> endsWith l ''.git''"
    using l by (simp_all add: last_segment_def segment_def)
  have g: "\<not> endsWith (X @ ''/'' @ l) ''.git''"
    using endsWith_append_segment [of "''.git''" l X] ns by simp
  have sl: "\<not> endsWith (X @ ''/'' @ l) ''/''"
    using endsWith_append_segment [of "''/''" l X] ns
    by (cases "rev l") (auto simp: endsWith_def)
  from sfx consider "sfx = []" | "sfx = ''/''" | "sfx = ''.git''" by blast
  then show ?thesis
  proof cases
    case 1
    with g sl show ?thesis by (simp add: strip_git_suffix_def strip_trailing_slash_def)
  next
    case 2
    have "\<not> endsWith (X @ ''/'' @ l @ ''/'') ''.git''" by (simp add: endsWith_def)
    moreover have "endsWith ((X @ ''/'' @ l) @ ''/'') ''/''" by (simp add: endsWith_def)
    ultimately show ?thesis using 2
      by (simp add: strip_git_suffix_def strip_trailing_slash_def)
  next
    case 3
    have "endsWith (X @ ''/'' @ l @ ''.git'') ''.git''" by (simp add: endsWith_def)
    then have "strip_git_suffix (X @ ''/'' @ l @ ''.git'') = X @ ''/'' @ l"
      by (simp add: strip_git_suffix_def)
    with sl 3 show ?thesis by (simp add: strip_trailing_slash_def)
  qed
qed

lemma takeWhile_segment:
  "CHR ''/'' \<notin> set g \<Longrightarrow> takeWhile not_slash (g @ CHR ''/'' # rest) = g"
  "CHR ''/'' \<notin> set g \<Longrightarrow> dropWhile not_slash (g @ CHR ''/'' # rest) = CHR ''/'' # rest"
  "CHR ''/'' \<notin> set g \<Longrightarrow> takeWhile not_slash g = g"
  "CHR ''/'' \<notin> set g \<Longrightarrow> dropWhile not_slash g = []"
  by (induction g) (auto simp: not_slash_def)

lemma match_here_repo:
  assumes "segment g1" "segment g2"
  shows "match_here (''github.com/'' @ g1 @ ''/'' @ g2) = Some (g1, g2, [])"
  using assms by (simp add: match_here_def segment_def takeWhile_segment not_slash_def)

lemma match_here_tree:
  assumes "segment g1" "segment g2" "segment g3"
  shows "match_here (''github.com/'' @ g1 @ ''/'' @ g2 @ ''/tree/'' @ g3) = Some (g1, g2, g3)"
  using assms by (simp add: match_here_def segment_def takeWhile_segment not_slash_def)

lemma regex_search_scheme:
  assumes "match_here (''github.com/'' @ rest) = Some m"
    and "scheme \<in> {''http://'', ''https://''}"
  shows "regex_search (scheme @ ''github.com/'' @ rest) = Some m"
proof -
  have a: "regex_search (''github.com/'' @ rest) = Some m" using assms(1) by simp
  have n: "match_here (c # cs) = None" if "c \<noteq> CHR ''g''" for c cs
    using that by (simp add: match_here_def)
  from assms(2) show ?thesis using a by (auto simp: n)
qed

section \<open>parseGitHubUrl on the variants of a locator\<close>

text \<open>
  Claim C8, as the code has it. Let the owner and the repository be non-empty and free of
  slashes, and let the last segment of the locator (the repository, or the branch after
  \<open>/tree/\<close>) end neither in white space nor in \<open>.git\<close>. Then \<open>github.com/owner/repo\<close>, written
  in lower case, with no scheme, \<open>http://\<close> or \<open>https://\<close> before it and nothing, one slash or
  \<open>.git\<close> after it, is accepted with that owner, that repository and an empty branch; and
  with \<open>/tree/branch\<close> added, with that branch.
\<close>

theorem parseGitHubUrl_variants:
  assumes o: "segment g1"
    and scheme: "scheme \<in> {[], ''http://'', ''https://''}"
    and sfx: "sfx \<in> {[], ''/'', ''.git''}"
  shows "(last_segment g2 \<longrightarrow>
            parseGitHubUrl (scheme @ ''github.com/'' @ g1 @ ''/'' @ g2 @ sfx)
              = Inr \<lparr>owner = g1, repo = g2, branch = []\<rparr>)
       \<and> (segment g2 \<and> last_segment g3 \<longrightarrow>
            parseGitHubUrl (scheme @ ''github.com/'' @ g1 @ ''/'' @ g2 @ ''/tree/'' @ g3 @ sfx)
              = Inr \<lparr>owner = g1, repo = g2, branch = g3\<rparr>)"
proof -
  have main: "parseGitHubUrl (scheme @ ''github.com/'' @ X @ ''/'' @ l @ sfx)
                = Inr \<lparr>owner = a, repo = b, branch = c\<rparr>"
    if l: "last_segment l" and m: "match_here (''github.com/'' @ X @ ''/'' @ l) = Some (a, b, c)"
    for X l a b c
  proof -
    let ?u = "scheme @ ''github.com/'' @ X @ ''/'' @ l @ sfx"
    have lne: "l \<noteq> []" "\<not> is_ws (last l)" using l by (simp_all add: last_segment_def segment_def)
    have "?u \<noteq> []" by simp
    moreover have "\<not> is_ws (hd ?u)" using scheme by (auto simp: is_ws_def)
    moreover have "\<not> is_ws (last ?u)" using sfx lne by (auto simp: is_ws_def)
    ultimately have t: "trim ?u = ?u" by (rule trim_id)
    define scheme' where "scheme' = (if scheme = [] then ''https://'' else scheme)"
    have s': "scheme' \<in> {''http://'', ''https://''}" using scheme by (auto simp: scheme'_def)
    have c1: "(if \<not> startsWith ?u ''http'' then ''https://'' @ ?u else ?u)
                = (scheme' @ ''github.com/'' @ X) @ ''/'' @ l @ sfx"
      using scheme by (auto simp: startsWith_def scheme'_def)
    have c2: "strip_trailing_slash (strip_git_suffix ((scheme' @ ''github.com/'' @ X) @ ''/'' @ l @ sfx))
                = (scheme' @ ''github.com/'' @ X) @ ''/'' @ l"
      using l sfx by (rule clean_suffix)
    have "regex_search (scheme' @ ''github.com/'' @ X @ ''/'' @ l) = Some (a, b, c)"
      using m s' by (rule regex_search_scheme)
    then have c3: "regex_search ((scheme' @ ''github.com/'' @ X) @ ''/'' @ l) = Some (a, b, c)"
      by simp
    show ?thesis unfolding parseGitHubUrl_def Let_def t c1 c2 c3 by simp
  qed
  show ?thesis
  proof (intro conjI impI)
    assume l: "last_segment g2"
    then have "segment g2" by (simp add: last_segment_def)
    with o have "match_here (''github.com/'' @ g1 @ ''/'' @ g2) = Some (g1, g2, [])"
      by (rule match_here_repo)
    with l show "parseGitHubUrl (scheme @ ''github.com/'' @ g1 @ ''/'' @ g2 @ sfx)
              = Inr \<lparr>owner = g1, repo = g2, branch = []\<rparr>"
      by (rule main)
  next
    assume a: "segment g2 \<and> last_segment g3"
    then have "segment g3" by (simp add: last_segment_def)
    with o a have "match_here (''github.com/'' @ (g1 @ ''/'' @ g2 @ ''/tree'') @ ''/'' @ g3)
                     = Some (g1, g2, g3)"
      using match_here_tree [of g1 g2 g3] by simp
    with a have "parseGitHubUrl (scheme @ ''github.com/'' @ (g1 @ ''/'' @ g2 @ ''/tree'') @ ''/'' @ g3 @ sfx)
              = Inr \<lparr>owner = g1, repo = g2, branch = g3\<rparr>"
      using main [of g3 "g1 @ ''/'' @ g2 @ ''/tree''" g1 g2 g3] by blast
    then show "parseGitHubUrl (scheme @ ''github.com/'' @ g1 @ ''/'' @ g2 @ ''/tree/'' @ g3 @ sfx)
              = Inr \<lparr>owner = g1, repo = g2, branch = g3\<rparr>"
      by simp
  qed
qed

theorem parseGitHubUrl_variants_witness:
  "segment ''owner'' \<and> last_segment ''repo'' \<and> segment ''repo'' \<and> last_segment ''develop''
   \<and> parseGitHubUrl ''github.com/owner/repo'' = Inr \<lparr>owner = ''owner'', repo = ''repo'', branch = []\<rparr>
   \<and> parseGitHubUrl ''https://github.com/owner/repo.git''
       = Inr \<lparr>owner = ''owner'', repo = ''repo'', branch = []\<rparr>
   \<and> parseGitHubUrl ''http://github.com/owner/repo/''
       = Inr \<lparr>owner = ''owner'', repo = ''repo'', branch = []\<rparr>
   \<and> parseGitHubUrl ''https://github.com/owner/repo/tree/develop/''
       = Inr \<lparr>owner = ''owner'', repo = ''repo'', branch = ''develop''\<rparr>"
proof -
  have o: "segment ''owner''" and r: "segment ''repo''" by (simp_all add: segment_def)
  have lr: "last_segment ''repo''" and lb: "last_segment ''develop''"
    by (simp_all add: last_segment_def segment_def is_ws_def endsWith_def)
  have "parseGitHubUrl ([] @ ''github.com/'' @ ''owner'' @ ''/'' @ ''repo'' @ [])
          = Inr \<lparr>owner = ''owner'', repo = ''repo'', branch = []\<rparr>"
    using parseGitHubUrl_variants [OF o, of "[]" "[]" "''repo''"] lr by simp
  moreover have "parseGitHubUrl (''https://'' @ ''github.com/'' @ ''owner'' @ ''/'' @ ''repo'' @ ''.git'')
          = Inr \<lparr>owner = ''owner'', repo = ''repo'', branch = []\<rparr>"
    using parseGitHubUrl_variants [OF o, of "''https://''" "''.git''" "''repo''"] lr by simp
  moreover have "parseGitHubUrl (''http://'' @ ''github.com/'' @ ''owner'' @ ''/'' @ ''repo'' @ ''/'')
          = Inr \<lparr>owner = ''owner'', repo = ''repo'', branch = []\<rparr>"
    using parseGitHubUrl_variants [OF o, of "''http://''" "''/''" "''repo''"] lr by simp
  moreover have "parseGitHubUrl (''https://'' @ ''github.com/'' @ ''owner'' @ ''/'' @ ''repo''
                    @ ''/tree/'' @ ''develop'' @ ''/'')
          = Inr \<lparr>owner = ''owner'', repo = ''repo'', branch = ''develop''\<rparr>"
    using parseGitHubUrl_variants [OF o, of "''https://''" "''/''" "''repo''" "''develop''"] r lb
    by simp
  ultimately show ?thesis using o r lr lb by simp
qed

text \<open>
  Claim C8 as stated fails: the pattern is matched with regard to case, so the host written
  \<open>GitHub.com\<close> is rejected while \<open>github.com\<close> is accepted.
\<close>

theorem parseGitHubUrl_case_counterexample:
  "parseGitHubUrl ''GitHub.com/owner/repo'' = Inl InvalidSource
   \<and> parseGitHubUrl ''github.com/owner/repo''
       = Inr \<lparr>owner = ''owner'', repo = ''repo'', branch = []\<rparr>"
  by (simp add: parse_defs)

section \<open>sanitizePath and a sibling of the docs directory\<close>

text \<open>
  Claim C3. \<open>sanitizePath\<close> compares strings, not path segments. For the docs directory
  \<open>/w/.docs/repo-docs\<close> it rejects \<open>../secret\<close>, but the relative path \<open>../repo-docs-evil/x.md\<close> resolves to
  \<open>/w/.docs/repo-docs-evil/x.md\<close>, which starts with the string \<open>/w/.docs/repo-docs\<close> and is
  accepted although it lies outside that directory. A tree entry with that path is among
  the files selected for the target path \<open>/\<close>; its batch download succeeds and writes the
  file there.
\<close>

theorem sanitizePath_sibling_prefix_escapes:
  "filterMarkdownFiles [md ''../repo-docs-evil/x.md''] ''/'' = [md ''../repo-docs-evil/x.md'']
   \<and> sanitizePath ''/w'' ''/w/.docs/repo-docs'' ''../secret'' = Inl (PathTraversal ''../secret'')
   \<and> sanitizePath ''/w'' ''/w/.docs/repo-docs'' ''../repo-docs-evil/x.md''
     = Inr ''/w/.docs/repo-docs-evil/x.md''
   \<and> \<not> inside_root ''/w/.docs/repo-docs'' ''/w/.docs/repo-docs-evil/x.md''
   \<and> downloadDocs ''/w'' ''/w/.docs/repo-docs'' ''repo-docs'' None ''/'' (io_failing []) None
        [md ''../repo-docs-evil/x.md'']
     = (Inr \<lparr>totalFiles = 1, downloadedFiles = 1, result_docsPath = ''/w/.docs/repo-docs'',
              result_sourceName = ''repo-docs'', detectedPath = None\<rparr>,
        None,
        \<lparr>downloadedCount = 1, failedFiles = [],
           written = [(''/w/.docs/repo-docs-evil/x.md'', ''# doc'')], progress = []\<rparr>)"
  by code_simp

section \<open>Facts about the branch fallback\<close>

lemma not_found_message:
  "includes_str (''Repository or branch not found: '' @ rest) ''not found''"
  by (simp add: includes_str_def)

lemma fetchRepoTree_404:
  assumes "get (apiUrl ow rp br) = Rejected code (Some 404) reset msg"
    and "code \<noteq> Some ''ECONNABORTED''" and "code \<noteq> Some ''ETIMEDOUT''"
  shows "fetchRepoTree get ow rp br
           = Inl (new_Error (''Repository or branch not found: '' @ ow @ ''/'' @ rp
                    @ '' (branch: '' @ br @ '')''))"
  using assms by (simp add: fetchRepoTree_def)

lemma try_branches_advances_on_404:
  assumes "get (apiUrl ow rp br) = Rejected code (Some 404) reset msg"
    and "code \<noteq> Some ''ECONNABORTED''" and "code \<noteq> Some ''ETIMEDOUT''"
  shows "try_branches get ow rp (br # rest)
           = (br # fst (try_branches get ow rp rest), snd (try_branches get ow rp rest))"
proof -
  have "fetchRepoTree get ow rp br
          = Inl (new_Error (''Repository or branch not found: '' @ ow @ ''/'' @ rp
                   @ '' (branch: '' @ br @ '')''))"
    using assms by (rule fetchRepoTree_404)
  then show ?thesis
    using not_found_message [of "ow @ ''/'' @ rp @ '' (branch: '' @ br @ '')''"]
    by (simp add: new_Error_def split: prod.splits)
qed

lemma try_branches_returns_first_success:
  assumes "get (apiUrl ow rp br) = Response t truncated"
  shows "try_branches get ow rp (br # rest) = ([br], Some (Inr (t, br)))"
  using assms by (simp add: fetchRepoTree_def)

lemma try_branches_aborts:
  assumes "fetchRepoTree get ow rp br = Inl e"
    and "\<not> includes_str (message e) ''not found''" and "response_status e \<noteq> Some 404"
  shows "try_branches get ow rp (br # rest) = ([br], Some (Inl e))"
  using assms by simp

lemma branchesToTry_order:
  "branchesToTry p =
     (if p = [] then BRANCH_FALLBACKS else p # filter (\<lambda>b. b \<noteq> p) BRANCH_FALLBACKS)"
  by (auto simp: branchesToTry_def BRANCH_FALLBACKS_def)

lemma fallback_preferred_404_then_main:
  "fetchRepoTreeWithFallback get_only_main ''o'' ''r'' ''trunk''
     = ([''trunk'', ''main''], Inr ([md ''docs/a.md''], ''main''))"
  by code_simp

section \<open>Branch fallback after a failure that is not a 404\<close>

text \<open>
  Claim C4. The locator \<open>github.com/not found/r\<close> is accepted with the owner
  \<open>not found\<close>. Every request times out. For the owner \<open>o\<close> the first candidate's failure ends
  the loop with the timeout error, after one request. For the owner \<open>not found\<close> the message
  of the timeout error, which names the owner, contains \<open>not found\<close>: the loop takes each
  timeout for a missing branch, requests all four candidates and fails with the
  repository-not-found error.
\<close>

theorem fallback_retries_after_timeout:
  "parseGitHubUrl ''github.com/not found/r''
     = Inr \<lparr>owner = ''not found'', repo = ''r'', branch = []\<rparr>
   \<and> fetchRepoTreeWithFallback get_timeout ''not found'' ''r'' []
     = ([''main'', ''master'', ''develop'', ''dev''],
        Inl (new_Error (''Could not find repository: not found/r''
          @ ''\<newline>\<newline>Tried branches: main, master, develop, dev''
          @ ''\<newline>\<newline>Please check:\<newline>  * The repository exists and is public\<newline>''
          @ ''  * The URL is correct\<newline>  * Use --branch to specify the correct branch name'')))
   \<and> fetchRepoTreeWithFallback get_timeout ''o'' ''r'' []
     = ([''main''],
        Inl (new_Error (''Connection timeout while fetching o/r''
          @ ''\<newline>\<newline>Please check your internet connection and try again.'')))"
  by code_simp

section \<open>Facts about the download loop\<close>

lemma accepted_sanitizePath:
  "accepted cwd docsPath eff file \<Longrightarrow>
     sanitizePath cwd docsPath (relativePath_of eff file)
       = Inr (path_resolve cwd [docsPath, relativePath_of eff file])"
  by (auto simp: accepted_def sanitizePath_def Let_def split: if_splits)

lemma download_loop_step_ok:
  assumes "accepted cwd docsPath eff file"
    and "attempt_at cwd docsPath eff io file = Succeeds content"
  shows "download_loop cwd docsPath eff io onProgress n (file # files) st =
     (let st1 = st\<lparr>written := written st
                         @ [(path_resolve cwd [docsPath, relativePath_of eff file], content)],
                    downloadedCount := downloadedCount st + 1\<rparr>
      in case onProgress of
           None \<Rightarrow> download_loop cwd docsPath eff io onProgress n files st1
         | Some cb \<Rightarrow>
             (let st2 = st1\<lparr>progress := progress st1
                            @ [(downloadedCount st1, n, relativePath_of eff file)]\<rparr>
              in if cb (downloadedCount st1) n (relativePath_of eff file) then
                   download_loop cwd docsPath eff io onProgress n files st2
                 else
                   download_loop cwd docsPath eff io onProgress n files
                     (st2\<lparr>failedFiles := failedFiles st2 @ [relativePath_of eff file]\<rparr>)))"
  using assms(2) accepted_sanitizePath [OF assms(1)]
  by (simp add: attempt_at_def Let_def)

lemma download_loop_step_fail:
  assumes "accepted cwd docsPath eff file"
    and "\<not> succeeded (attempt_at cwd docsPath eff io file)"
  shows "download_loop cwd docsPath eff io onProgress n (file # files) st =
     download_loop cwd docsPath eff io onProgress n files
       (st\<lparr>failedFiles := failedFiles st @ [relativePath_of eff file]\<rparr>)"
  using assms(2) accepted_sanitizePath [OF assms(1)]
  by (simp add: attempt_at_def succeeded_def Let_def split: attempt.splits)


lemma succeeded_cases:
  "succeeded a \<Longrightarrow> \<exists>content. a = Succeeds content"
  by (cases a) (simp_all add: succeeded_def)

lemma download_loop_counts:
  assumes "\<forall>f \<in> set files. accepted cwd docsPath eff f"
    and "\<forall>cb. onProgress = Some cb \<longrightarrow> (\<forall>a b c. cb a b c)"
  shows "fst (download_loop cwd docsPath eff io onProgress n files st) = None
       \<and> downloadedCount (snd (download_loop cwd docsPath eff io onProgress n files st))
           = downloadedCount st
             + length (filter (\<lambda>f. succeeded (attempt_at cwd docsPath eff io f)) files)
       \<and> failedFiles (snd (download_loop cwd docsPath eff io onProgress n files st))
           = failedFiles st
             @ map (relativePath_of eff)
                 (filter (\<lambda>f. \<not> succeeded (attempt_at cwd docsPath eff io f)) files)"
  using assms(1)
proof (induction files arbitrary: st)
  case Nil
  show ?case by simp
next
  case (Cons f0 fs)
  then have acc: "accepted cwd docsPath eff f0"
    and rest: "\<forall>f \<in> set fs. accepted cwd docsPath eff f" by simp_all
  show ?case
  proof (cases "succeeded (attempt_at cwd docsPath eff io f0)")
    case True
    then obtain content where c: "attempt_at cwd docsPath eff io f0 = Succeeds content"
      using succeeded_cases by blast
    show ?thesis
    proof (cases onProgress)
      case None
      then show ?thesis
        using Cons.IH [OF rest] True
        by (simp add: download_loop_step_ok [OF acc c] Let_def del: download_loop.simps)
    next
      case (Some cb)
      with assms(2) have "\<And>a b c. cb a b c" by blast
      with Some show ?thesis
        using Cons.IH [OF rest] True
        by (simp add: download_loop_step_ok [OF acc c] Let_def del: download_loop.simps)
    qed
  next
    case False
    then show ?thesis
      using Cons.IH [OF rest]
      by (simp add: download_loop_step_fail [OF acc False] del: download_loop.simps)
  qed
qed




lemma rejected_first_file:
  assumes "\<not> accepted cwd docsPath (strip_slashes targetPath) f0"
  shows "downloadDocs cwd docsPath name detected targetPath io onProgress (f0 # files)
           = (Inl (PathTraversal (relativePath_of (strip_slashes targetPath) f0)), None,
              initial_state)"
  using assms
  by (auto simp: downloadDocs_def accepted_def sanitizePath_def Let_def split: sum.splits if_splits)

section \<open>The batch download and its outcome\<close>

text \<open>
  Claim C1, as the code has it. Let \<open>sanitizePath\<close> accept every selected file and let the
  progress callback, if there is one, return normally. Then the loop runs through all the
  files; the relative path of each file whose directory creation, download or write fails
  is added to the failed list, in order, and the files after it are still processed; the
  count is the number of files written. The download fails with \<open>DownloadFailed\<close> if and
  only if no file succeeded. When at least one succeeded, it returns the number of selected
  files and the number of files written, with the docs path, the source name and the
  detected path; the failed list is not part of the value returned. It is only printed as a
  warning that gives the number of failed files, the first five of them and the number of
  the others.
\<close>

theorem downloadDocs_partial_failure:
  assumes "\<forall>f \<in> set files. accepted cwd docsPath (strip_slashes targetPath) f"
    and "\<forall>cb. onProgress = Some cb \<longrightarrow> (\<forall>a b c. cb a b c)"
  shows "let eff = strip_slashes targetPath;
             good = filter (\<lambda>f. succeeded (attempt_at cwd docsPath eff io f)) files;
             bad = map (relativePath_of eff)
                     (filter (\<lambda>f. \<not> succeeded (attempt_at cwd docsPath eff io f)) files);
             r = downloadDocs cwd docsPath name detected targetPath io onProgress files
         in failedFiles (snd (snd r)) = bad
            \<and> downloadedCount (snd (snd r)) = length good
            \<and> (fst r = Inl DownloadFailed \<longleftrightarrow> good = [])
            \<and> (good \<noteq> [] \<longrightarrow>
                 fst r = Inr \<lparr>totalFiles = length files, downloadedFiles = length good,
                              result_docsPath = docsPath, result_sourceName = name,
                              detectedPath = detected\<rparr>
                 \<and> fst (snd r)
                     = (if bad = [] then None
                        else Some \<lparr>warn_count = length bad, warn_shown = take 5 bad,
                                   warn_more = (if length bad > 5 then Some (length bad - 5)
                                                else None)\<rparr>))"
proof -
  let ?eff = "strip_slashes targetPath"
  let ?l = "download_loop cwd docsPath ?eff io onProgress (length files) files initial_state"
  have l: "fst ?l = None"
    "downloadedCount (snd ?l)
       = length (filter (\<lambda>f. succeeded (attempt_at cwd docsPath ?eff io f)) files)"
    "failedFiles (snd ?l)
       = map (relativePath_of ?eff)
           (filter (\<lambda>f. \<not> succeeded (attempt_at cwd docsPath ?eff io f)) files)"
    using download_loop_counts [OF assms, of io "length files" initial_state]
    by (simp_all add: initial_state_def)
  show ?thesis
    unfolding downloadDocs_def Let_def using l by (simp add: Let_def)
qed

theorem downloadDocs_partial_failure_witness:
  "fst (downloadDocs ''/w'' ''/w/.docs/repo-docs'' ''repo-docs'' None ''/'' (io_failing [''b.md''])
          None [md ''a.md'', md ''b.md'', md ''c.md'', md ''d.md''])
     = Inr \<lparr>totalFiles = 4, downloadedFiles = 3, result_docsPath = ''/w/.docs/repo-docs'',
              result_sourceName = ''repo-docs'', detectedPath = None\<rparr>
   \<and> fst (snd (downloadDocs ''/w'' ''/w/.docs/repo-docs'' ''repo-docs'' None ''/''
          (io_failing [''b.md'']) None [md ''a.md'', md ''b.md'', md ''c.md'', md ''d.md'']))
     = Some \<lparr>warn_count = 1, warn_shown = [''b.md''], warn_more = None\<rparr>
   \<and> failedFiles (snd (snd (downloadDocs ''/w'' ''/w/.docs/repo-docs'' ''repo-docs'' None ''/''
          (io_failing [''b.md'']) None [md ''a.md'', md ''b.md'', md ''c.md'', md ''d.md''])))
     = [''b.md'']"
proof -
  let ?files = "[md ''a.md'', md ''b.md'', md ''c.md'', md ''d.md'']"
  let ?io = "io_failing [''b.md'']"
  have h1: "\<forall>f \<in> set ?files. accepted ''/w'' ''/w/.docs/repo-docs'' (strip_slashes ''/'') f"
    by code_simp
  have h2: "\<forall>cb. (None :: (nat \<Rightarrow> nat \<Rightarrow> string \<Rightarrow> bool) option) = Some cb \<longrightarrow> (\<forall>a b c. cb a b c)"
    by simp
  have g: "filter (\<lambda>f. succeeded (attempt_at ''/w'' ''/w/.docs/repo-docs'' (strip_slashes ''/'') ?io f))
             ?files = [md ''a.md'', md ''c.md'', md ''d.md'']"
    by code_simp
  have b: "map (relativePath_of (strip_slashes ''/''))
             (filter (\<lambda>f. \<not> succeeded (attempt_at ''/w'' ''/w/.docs/repo-docs'' (strip_slashes ''/'') ?io f))
                ?files) = [''b.md'']"
    by code_simp
  show ?thesis
    using downloadDocs_partial_failure [OF h1 h2, where io = ?io and name = "''repo-docs''"
        and detected = None]
    unfolding Let_def g b by simp
qed

text \<open>
  Claim C1 as stated fails: the value returned does not report the failed list. Of eight
  selected files, let the first five and the sixth fail in one run, the first five and the
  seventh in another. Both runs return the same value and print the same warning, and their
  failed lists differ.
\<close>

theorem failed_list_not_in_outcome_counterexample:
  "fst (downloadDocs ''/w'' ''/w/.docs/repo-docs'' ''repo-docs'' None ''/''
          (io_failing [''1.md'', ''2.md'', ''3.md'', ''4.md'', ''5.md'', ''6.md'']) None
          [md ''1.md'', md ''2.md'', md ''3.md'', md ''4.md'', md ''5.md'', md ''6.md'',
           md ''7.md'', md ''8.md''])
     = Inr \<lparr>totalFiles = 8, downloadedFiles = 2, result_docsPath = ''/w/.docs/repo-docs'',
              result_sourceName = ''repo-docs'', detectedPath = None\<rparr>
   \<and> fst (downloadDocs ''/w'' ''/w/.docs/repo-docs'' ''repo-docs'' None ''/''
          (io_failing [''1.md'', ''2.md'', ''3.md'', ''4.md'', ''5.md'', ''7.md'']) None
          [md ''1.md'', md ''2.md'', md ''3.md'', md ''4.md'', md ''5.md'', md ''6.md'',
           md ''7.md'', md ''8.md''])
     = Inr \<lparr>totalFiles = 8, downloadedFiles = 2, result_docsPath = ''/w/.docs/repo-docs'',
              result_sourceName = ''repo-docs'', detectedPath = None\<rparr>
   \<and> fst (snd (downloadDocs ''/w'' ''/w/.docs/repo-docs'' ''repo-docs'' None ''/''
          (io_failing [''1.md'', ''2.md'', ''3.md'', ''4.md'', ''5.md'', ''6.md'']) None
          [md ''1.md'', md ''2.md'', md ''3.md'', md ''4.md'', md ''5.md'', md ''6.md'',
           md ''7.md'', md ''8.md'']))
     = Some \<lparr>warn_count = 6, warn_shown = [''1.md'', ''2.md'', ''3.md'', ''4.md'', ''5.md''],
             warn_more = Some 1\<rparr>
   \<and> fst (snd (downloadDocs ''/w'' ''/w/.docs/repo-docs'' ''repo-docs'' None ''/''
          (io_failing [''1.md'', ''2.md'', ''3.md'', ''4.md'', ''5.md'', ''7.md'']) None
          [md ''1.md'', md ''2.md'', md ''3.md'', md ''4.md'', md ''5.md'', md ''6.md'',
           md ''7.md'', md ''8.md'']))
     = Some \<lparr>warn_count = 6, warn_shown = [''1.md'', ''2.md'', ''3.md'', ''4.md'', ''5.md''],
             warn_more = Some 1\<rparr>
   \<and> failedFiles (snd (snd (downloadDocs ''/w'' ''/w/.docs/repo-docs'' ''repo-docs'' None ''/''
          (io_failing [''1.md'', ''2.md'', ''3.md'', ''4.md'', ''5.md'', ''6.md'']) None
          [md ''1.md'', md ''2.md'', md ''3.md'', md ''4.md'', md ''5.md'', md ''6.md'',
           md ''7.md'', md ''8.md''])))
     = [''1.md'', ''2.md'', ''3.md'', ''4.md'', ''5.md'', ''6.md'']
   \<and> failedFiles (snd (snd (downloadDocs ''/w'' ''/w/.docs/repo-docs'' ''repo-docs'' None ''/''
          (io_failing [''1.md'', ''2.md'', ''3.md'', ''4.md'', ''5.md'', ''7.md'']) None
          [md ''1.md'', md ''2.md'', md ''3.md'', md ''4.md'', md ''5.md'', md ''6.md'',
           md ''7.md'', md ''8.md''])))
     = [''1.md'', ''2.md'', ''3.md'', ''4.md'', ''5.md'', ''7.md'']"
  by code_simp

section \<open>The progress callback\<close>





section \<open>Facts about sorting with a comparison function\<close>

lemma set_insert_by: "set (insert_by cmp x ys) = insert x (set ys)"
  by (induction ys) auto

lemma distinct_insert_by: "distinct (insert_by cmp x ys) \<longleftrightarrow> x \<notin> set ys \<and> distinct ys"
  by (induction ys) (auto simp: set_insert_by)

lemma set_sort_by: "set (sort_by cmp xs) = set xs"
  by (induction xs) (simp_all add: sort_by_def set_insert_by)

lemma distinct_sort_by: "distinct (sort_by cmp xs) \<longleftrightarrow> distinct xs"
  by (induction xs) (simp_all add: sort_by_def distinct_insert_by set_sort_by [unfolded sort_by_def])

lemma sorted_insert_by:
  assumes total: "\<And>a b. cmp a b \<le> 0 \<or> cmp b a \<le> 0"
    and trans: "\<And>a b c. cmp a b \<le> 0 \<Longrightarrow> cmp b c \<le> 0 \<Longrightarrow> cmp a c \<le> 0"
    and s: "sorted_wrt (\<lambda>a b. cmp a b \<le> 0) ys"
  shows "sorted_wrt (\<lambda>a b. cmp a b \<le> 0) (insert_by cmp x ys)"
  using s
proof (induction ys)
  case Nil
  show ?case by simp
next
  case (Cons y ys)
  show ?case
  proof (cases "cmp x y \<le> 0")
    case True
    have "cmp x z \<le> 0" if "z \<in> set ys" for z
      using trans [OF True] Cons.prems that by auto
    with True Cons.prems show ?thesis by simp
  next
    case False
    then have "cmp y x \<le> 0" using total [of x y] by simp
    with False Cons show ?thesis by (auto simp: set_insert_by)
  qed
qed

lemma sorted_sort_by:
  assumes "\<And>a b. cmp a b \<le> 0 \<or> cmp b a \<le> 0"
    and "\<And>a b c. cmp a b \<le> 0 \<Longrightarrow> cmp b c \<le> 0 \<Longrightarrow> cmp a c \<le> 0"
  shows "sorted_wrt (\<lambda>a b. cmp a b \<le> 0) (sort_by cmp xs)"
proof (induction xs)
  case Nil
  show ?case by (simp add: sort_by_def)
next
  case (Cons x xs)
  have "sorted_wrt (\<lambda>a b. cmp a b \<le> 0) (insert_by cmp x (sort_by cmp xs))"
    using assms Cons by (rule sorted_insert_by)
  then show ?case by (simp add: sort_by_def)
qed

lemma compareDirs_total:
  assumes "\<forall>a b. lc a b \<le> 0 \<or> lc b a \<le> 0"
  shows "compareDirs lc a b \<le> 0 \<or> compareDirs lc b a \<le> 0"
  using assms by (auto simp: compareDirs_def)

lemma compareDirs_trans:
  assumes "\<forall>a b c. lc a b \<le> 0 \<longrightarrow> lc b c \<le> 0 \<longrightarrow> lc a c \<le> 0"
    and "compareDirs lc a b \<le> 0" and "compareDirs lc b c \<le> 0"
  shows "compareDirs lc a c \<le> 0"
proof (cases "a = []")
  case True
  then show ?thesis by (simp add: compareDirs_def)
next
  case False
  with assms(2) have b: "b \<noteq> []" "lc a b \<le> 0"
    by (auto simp: compareDirs_def split: if_splits)
  with assms(3) have c: "c \<noteq> []" "lc b c \<le> 0"
    by (auto simp: compareDirs_def split: if_splits)
  from assms(1) b(2) c(2) have "lc a c \<le> 0" by blast
  with False c(1) show ?thesis by (simp add: compareDirs_def)
qed

lemma root_key_first:
  assumes "sorted_wrt (\<lambda>a b. compareDirs lc a b \<le> 0) xs" and "distinct xs"
  shows "xs = (if [] \<in> set xs then [] # filter (\<lambda>d. d \<noteq> []) xs else filter (\<lambda>d. d \<noteq> []) xs)"
proof (cases xs)
  case Nil
  then show ?thesis by simp
next
  case (Cons x xs')
  show ?thesis
  proof (cases "x = []")
    case True
    with Cons assms(2) have "[] \<notin> set xs'" by simp
    then have "filter (\<lambda>d. d \<noteq> []) xs' = xs'" by (auto simp: filter_id_conv)
    with Cons True show ?thesis by simp
  next
    case False
    have "z \<noteq> []" if "z \<in> set xs'" for z
    proof
      assume "z = []"
      with that Cons assms(1) have "compareDirs lc x [] \<le> 0" by auto
      with False show False by (simp add: compareDirs_def)
    qed
    then have "[] \<notin> set xs'" by blast
    then have "filter (\<lambda>d. d \<noteq> []) xs' = xs'" by (auto simp: filter_id_conv)
    with Cons False \<open>[] \<notin> set xs'\<close> show ?thesis by simp
  qed
qed

lemma files_of_sorted_in_place:
  "files_of (sorted_in_place grouped) dir = sort (files_of grouped dir)"
  by (induction grouped) (auto simp: files_of_def sorted_in_place_def)

lemma keys_sorted_in_place: "map fst (sorted_in_place grouped) = map fst grouped"
  by (induction grouped) (auto simp: sorted_in_place_def)

lemma compare_code_units_consistent:
  "\<forall>a b. compare_code_units a b \<le> 0 \<or> compare_code_units b a \<le> 0"
  "\<forall>a b c. compare_code_units a b \<le> 0 \<longrightarrow> compare_code_units b c \<le> 0
     \<longrightarrow> compare_code_units a c \<le> 0"
  by (auto simp: compare_code_units_def split: if_splits)

section \<open>The compressed index\<close>

text \<open>
  Claim C7, as the code has it. Let the mapping hold each directory key once and let
  \<open>localeCompare\<close> be a consistent comparison (total and transitive). Then the index is the
  lines of the keys joined by line feeds, one line for each key, with the line of the root
  key \<open>''\<close> first and the other keys after it in the order of \<open>localeCompare\<close>. The line of
  a key is its display directory, \<open>:{\<close>, its file names sorted by their code units and joined
  by commas, and \<open>}\<close>; the display directory is the base name of the root path for the root
  key and that base name, a slash and the key with its backslashes turned into slashes
  otherwise. A second run, on the mapping as the first run left it, returns the same text.
\<close>

theorem generateCompressedIndex_order:
  assumes d: "distinct (map fst grouped)"
    and total: "\<forall>a b. localeCompare a b \<le> 0 \<or> localeCompare b a \<le> 0"
    and trans: "\<forall>a b c. localeCompare a b \<le> 0 \<longrightarrow> localeCompare b c \<le> 0 \<longrightarrow> localeCompare a c \<le> 0"
  shows "let dirs = sort_by (compareDirs localeCompare) (map fst grouped);
             rest = filter (\<lambda>dir. dir \<noteq> []) dirs;
             rootName = path_basename rootPath
         in generateCompressedIndex localeCompare grouped rootPath
              = join ''\<newline>''
                  (map (\<lambda>dir. (if dir = [] then rootName
                               else rootName @ ''/''
                                    @ map (\<lambda>c. if c = CHR 0x5C then CHR ''/'' else c) dir)
                              @ '':{'' @ join '','' (sort (files_of grouped dir)) @ ''}'') dirs)
            \<and> set dirs = set (map fst grouped) \<and> distinct dirs
            \<and> dirs = (if [] \<in> set (map fst grouped) then [] # rest else rest)
            \<and> sorted_wrt (\<lambda>a b. localeCompare a b \<le> 0) rest
            \<and> generateCompressedIndex localeCompare (sorted_in_place grouped) rootPath
                = generateCompressedIndex localeCompare grouped rootPath"
proof -
  let ?R = "\<lambda>a b. compareDirs localeCompare a b \<le> 0"
  let ?dirs = "sort_by (compareDirs localeCompare) (map fst grouped)"
  let ?rest = "filter (\<lambda>dir. dir \<noteq> []) ?dirs"
  have s: "sorted_wrt ?R ?dirs"
    using compareDirs_total [OF total] compareDirs_trans [OF trans] by (rule sorted_sort_by)
  have st: "set ?dirs = set (map fst grouped)" by (rule set_sort_by)
  have di: "distinct ?dirs" using d by (simp add: distinct_sort_by)
  have first: "?dirs = (if [] \<in> set (map fst grouped) then [] # ?rest else ?rest)"
    using root_key_first [OF s di] unfolding st .
  have "sorted_wrt ?R ?rest" using s by (rule sorted_wrt_filter)
  then have rest: "sorted_wrt (\<lambda>a b. localeCompare a b \<le> 0) ?rest"
  proof (rule sorted_wrt_mono_rel [rotated])
    fix x y assume "x \<in> set ?rest" "y \<in> set ?rest" "compareDirs localeCompare x y \<le> 0"
    then show "localeCompare x y \<le> 0" by (auto simp: compareDirs_def split: if_splits)
  qed
  have out: "generateCompressedIndex localeCompare grouped rootPath
              = join ''\<newline>''
                  (map (\<lambda>dir. (if dir = [] then path_basename rootPath
                               else path_basename rootPath @ ''/''
                                    @ map (\<lambda>c. if c = CHR 0x5C then CHR ''/'' else c) dir)
                              @ '':{'' @ join '','' (sort (files_of grouped dir)) @ ''}'') ?dirs)"
    by (simp add: generateCompressedIndex_def index_line_def Let_def)
  have again: "generateCompressedIndex localeCompare (sorted_in_place grouped) rootPath
                = generateCompressedIndex localeCompare grouped rootPath"
    by (simp add: generateCompressedIndex_def keys_sorted_in_place files_of_sorted_in_place
        sorted_sort_id)
  show ?thesis unfolding Let_def using out st di first rest again by blast
qed

theorem generateCompressedIndex_order_witness:
  "generateCompressedIndex compare_code_units [([], [''z.md'', ''a.md'', ''m.md''])] ''/path/to/docs''
     = ''docs:{a.md,m.md,z.md}''
   \<and> generateCompressedIndex compare_code_units
       (sorted_in_place [([], [''z.md'', ''a.md'', ''m.md''])]) ''/path/to/docs''
     = ''docs:{a.md,m.md,z.md}''
   \<and> generateCompressedIndex compare_code_units
       [(''guides'', [''b.md'', ''a.md'']), ([], [''readme.md'']), (''api'', [''x.md''])]
       ''/w/.docs/my-docs/''
     = ''my-docs:{readme.md}\<newline>my-docs/api:{x.md}\<newline>my-docs/guides:{a.md,b.md}''
   \<and> generateCompressedIndex compare_code_units
       (sorted_in_place [(''guides'', [''b.md'', ''a.md'']), ([], [''readme.md'']), (''api'', [''x.md''])])
       ''/w/.docs/my-docs/''
     = ''my-docs:{readme.md}\<newline>my-docs/api:{x.md}\<newline>my-docs/guides:{a.md,b.md}''"
proof -
  let ?g1 = "[([], [''z.md'', ''a.md'', ''m.md''])] :: IndexedDirectory"
  let ?g2 = "[(''guides'', [''b.md'', ''a.md'']), ([], [''readme.md'']), (''api'', [''x.md''])]"
  have d1: "distinct (map fst ?g1)" and d2: "distinct (map fst ?g2)" by simp_all
  have v1: "generateCompressedIndex compare_code_units ?g1 ''/path/to/docs''
              = ''docs:{a.md,m.md,z.md}''"
    by code_simp
  have v2: "generateCompressedIndex compare_code_units ?g2 ''/w/.docs/my-docs/''
              = ''my-docs:{readme.md}\<newline>my-docs/api:{x.md}\<newline>my-docs/guides:{a.md,b.md}''"
    by code_simp
  have a1: "generateCompressedIndex compare_code_units (sorted_in_place ?g1) ''/path/to/docs''
              = generateCompressedIndex compare_code_units ?g1 ''/path/to/docs''"
    using generateCompressedIndex_order [OF d1 compare_code_units_consistent,
        where rootPath = "''/path/to/docs''"]
    unfolding Let_def by blast
  have a2: "generateCompressedIndex compare_code_units (sorted_in_place ?g2) ''/w/.docs/my-docs/''
              = generateCompressedIndex compare_code_units ?g2 ''/w/.docs/my-docs/''"
    using generateCompressedIndex_order [OF d2 compare_code_units_consistent,
        where rootPath = "''/w/.docs/my-docs/''"]
    unfolding Let_def by blast
  show ?thesis using v1 v2 a1 a2 by simp
qed

text \<open>
  Claim C7 as stated fails: the directories are not in the lexicographic order of their code
  units but in the order of \<open>localeCompare\<close>. With a comparison that, as the collations of
  ICU do, puts \<open>a\<close> before \<open>B\<close>, the line of the directory \<open>a\<close> comes before the line of \<open>B\<close>,
  while \<open>B\<close> is less than \<open>a\<close> by code units; the file names of one line of the same index
  are in the order of the code units, \<open>B.md\<close> before \<open>a.md\<close>.
\<close>

theorem directories_in_collation_order_counterexample:
  "generateCompressedIndex compare_letters [(''B'', [''a.md'', ''B.md'']), (''a'', [''y.md''])] ''/r''
     = ''r/a:{y.md}\<newline>r/B:{B.md,a.md}''
   \<and> (''B'' :: string) < ''a''
   \<and> compare_letters ''a'' ''B'' < 0"
  by code_simp

end
